theory Spec2Isabelle
  imports
    Main
    "HOL-Library.Char_ord"
    "HOL-Library.List_Lexorder"
    "HOL-Library.Product_Lexorder"
    "HOL-Library.Multiset"
begin

section \<open>Repomap: a bounded, deterministic repository summary\<close>

text \<open>
  A shallow embedding of \<^verbatim>\<open>extensions/vscode/tools/repomap/repomap.py\<close>.

  Conventions of the embedding.
  \<^item> Python \<^verbatim>\<open>int\<close> is \<^typ>\<open>int\<close>; every command-line cap is an \<^typ>\<open>int\<close> and may be
    zero or negative, as \<^verbatim>\<open>argparse\<close> with \<^verbatim>\<open>type=int\<close> accepts.
  \<^item> Python \<^verbatim>\<open>str\<close> is \<^typ>\<open>string\<close>. The embedding covers ASCII text: one character is
    one UTF-8 byte, \<^verbatim>\<open>lower()\<close>, \<^verbatim>\<open>\s\<close> and \<^verbatim>\<open>\w\<close> are the ASCII ones.
  \<^item> The host is POSIX: \<^verbatim>\<open>os.sep\<close> is \<^verbatim>\<open>/\<close>, so \<^verbatim>\<open>replace(os.sep, "/")\<close> is the
    identity and \<^verbatim>\<open>os.path.normcase\<close> changes nothing.
  \<^item> The file system is a value: a directory is a list of named entries, a file carries
    what \<^verbatim>\<open>stat\<close> and reading it give. It does not change during a run.
\<close>

subsection \<open>Python string operations\<close>

definition startswith :: "string \<Rightarrow> string \<Rightarrow> bool" where
  "startswith s p = (take (length p) s = p)"

definition endswith :: "string \<Rightarrow> string \<Rightarrow> bool" where
  "endswith s p = (length p \<le> length s \<and> drop (length s - length p) s = p)"

text \<open>\<^verbatim>\<open>sub in s\<close> on strings.\<close>

fun contains :: "string \<Rightarrow> string \<Rightarrow> bool" where
  "contains sub [] = (sub = [])"
| "contains sub (c # s) = (startswith (c # s) sub \<or> contains sub s)"

text \<open>\<^verbatim>\<open>s.split(sep)\<close> for a one-character separator: every occurrence splits, empty
  pieces are kept.\<close>

fun split_on :: "char \<Rightarrow> string \<Rightarrow> string list" where
  "split_on sep [] = [[]]"
| "split_on sep (c # s) =
     (if c = sep then [] # split_on sep s
      else (case split_on sep s of
              [] \<Rightarrow> [[c]]
            | p # ps \<Rightarrow> (c # p) # ps))"

definition lower_char :: "char \<Rightarrow> char" where
  "lower_char c =
     (if CHR ''A'' \<le> c \<and> c \<le> CHR ''Z'' then char_of (of_char c + (32 :: nat)) else c)"

definition lower :: "string \<Rightarrow> string" where
  "lower s = map lower_char s"

text \<open>\<^verbatim>\<open>str.isspace\<close> on ASCII, which is also what \<^verbatim>\<open>\s\<close> matches and \<^verbatim>\<open>strip()\<close> removes:
  tab, line feed, vertical tab, form feed, carriage return, the four separators
  \<^verbatim>\<open>0x1c\<close> to \<^verbatim>\<open>0x1f\<close>, and the space.\<close>

definition is_space :: "char \<Rightarrow> bool" where
  "is_space c = (let n = (of_char c :: nat) in (9 \<le> n \<and> n \<le> 13) \<or> (28 \<le> n \<and> n \<le> 32))"

definition strip :: "string \<Rightarrow> string" where
  "strip s = rev (dropWhile is_space (rev (dropWhile is_space s)))"

text \<open>\<^verbatim>\<open>os.path.basename\<close>: what follows the last slash.\<close>

definition basename :: "string \<Rightarrow> string" where
  "basename p = rev (takeWhile (\<lambda>c. c \<noteq> CHR ''/'') (rev p))"

text \<open>\<^verbatim>\<open>os.path.splitext(p)[1]\<close>: the extension starts at the last dot of the basename,
  unless only dots precede it there.\<close>

definition splitext_ext :: "string \<Rightarrow> string" where
  "splitext_ext p =
     (let b = basename p;
          stem = rev (drop 1 (dropWhile (\<lambda>c. c \<noteq> CHR ''.'') (rev b)));
          ext = CHR ''.'' # rev (takeWhile (\<lambda>c. c \<noteq> CHR ''.'') (rev b))
      in if CHR ''.'' \<in> set b \<and> list_ex (\<lambda>c. c \<noteq> CHR ''.'') stem then ext else [])"

text \<open>Python slicing \<^verbatim>\<open>xs[:n]\<close>: a negative bound counts from the end.\<close>

definition slice_to :: "int \<Rightarrow> 'a list \<Rightarrow> 'a list" where
  "slice_to n xs = (if 0 \<le> n then take (nat n) xs else take (length xs - nat (- n)) xs)"

subsection \<open>Constants\<close>

definition DEFAULT_MAX_TREE_CHARS :: int where "DEFAULT_MAX_TREE_CHARS = 4000"
definition DEFAULT_MAX_SYMBOLS :: int where "DEFAULT_MAX_SYMBOLS = 200"
definition DEFAULT_MAX_TOP_FILES :: int where "DEFAULT_MAX_TOP_FILES = 50"
definition DEFAULT_MAX_HOTSPOTS :: int where "DEFAULT_MAX_HOTSPOTS = 20"
definition DEFAULT_MAX_TREE_DEPTH :: int where "DEFAULT_MAX_TREE_DEPTH = 4"
definition DEFAULT_MAX_FILE_KB :: int where "DEFAULT_MAX_FILE_KB = 512"
definition DEFAULT_MAX_FILE_BYTES :: int where "DEFAULT_MAX_FILE_BYTES = DEFAULT_MAX_FILE_KB * 1024"
definition DEFAULT_MAX_SCAN_LINES :: int where "DEFAULT_MAX_SCAN_LINES = 4000"
definition DEFAULT_MAX_FILES :: int where "DEFAULT_MAX_FILES = 5000"
definition DEFAULT_MAX_TOTAL_BYTES :: int where "DEFAULT_MAX_TOTAL_BYTES = 20 * 1024 * 1024"
definition MAX_SYMBOLS_PER_FILE :: nat where "MAX_SYMBOLS_PER_FILE = 25"

definition DEFAULT_EXCLUDED_DIRS :: "string list" where
  "DEFAULT_EXCLUDED_DIRS =
     [''.git'', ''node_modules'', ''dist'', ''build'', ''DerivedData'', ''.next'', ''.turbo'',
      ''.cache'', ''.idea'', ''.vscode'', ''.pnpm-store'', ''Pods'', ''__pycache__'',
      ''.pytest_cache'', ''.mypy_cache'', ''.ruff_cache'', ''.venv'', ''venv'', ''.tox'',
      ''target'', ''coverage'', ''.build'', ''.swiftpm'']"

definition IMPORTANT_FILENAMES :: "string list" where
  "IMPORTANT_FILENAMES =
     [''readme'', ''readme.md'', ''readme.rst'', ''readme.txt'', ''package.json'',
      ''pnpm-lock.yaml'', ''yarn.lock'', ''package-lock.json'', ''cargo.toml'',
      ''pyproject.toml'', ''requirements.txt'', ''setup.py'', ''tsconfig.json'',
      ''tsconfig.base.json'', ''tsconfig.app.json'', ''tsconfig.node.json'',
      ''config.yaml'', ''config.yml'']"

definition ENTRYPOINT_FILENAMES :: "string list" where
  "ENTRYPOINT_FILENAMES =
     [''main.ts'', ''main.tsx'', ''main.js'', ''main.jsx'', ''index.ts'', ''index.tsx'',
      ''index.js'', ''index.jsx'', ''app.ts'', ''app.tsx'', ''app.js'', ''app.jsx'']"

definition EXT_SCAN_PRIORITY :: "(string \<times> int) list" where
  "EXT_SCAN_PRIORITY =
     [(''.swift'', 0), (''.ts'', 1), (''.tsx'', 1), (''.js'', 2), (''.jsx'', 2), (''.py'', 3),
      (''.rs'', 4), (''.go'', 5), (''.java'', 6), (''.kt'', 6), (''.md'', 7), (''.yml'', 8),
      (''.yaml'', 8), (''.toml'', 9), (''.json'', 10)]"

subsection \<open>Path filter\<close>

text \<open>
  \<^verbatim>\<open>fnmatch.fnmatch\<close> of the standard library (Python 3.9 and later): the pattern is
  translated into a list of items (\<^verbatim>\<open>*\<close>, \<^verbatim>\<open>?\<close>, a bracket expression, or a literal
  character) and the whole name must match. A bracket with no closing \<^verbatim>\<open>]\<close> is a literal
  \<^verbatim>\<open>[\<close>; a \<^verbatim>\<open>]\<close> first in the bracket (or right after a leading \<^verbatim>\<open>!\<close>) belongs to it.
\<close>

datatype class_item = Single char | Range char char

datatype glob_item = GStar | GAny | GLit char | GClass bool "class_item list"

fun in_class_item :: "char \<Rightarrow> class_item \<Rightarrow> bool" where
  "in_class_item c (Single a) = (c = a)"
| "in_class_item c (Range a b) = (a \<le> c \<and> c \<le> b)"

text \<open>The bracket expression that starts right after a \<^verbatim>\<open>[\<close>: its text \<^verbatim>\<open>pat[i:j]\<close>, with a
  leading \<^verbatim>\<open>!\<close> if there is one, and the pattern after the closing bracket.\<close>

definition bracket :: "string \<Rightarrow> (string \<times> string) option" where
  "bracket pat =
     (let bang = (if startswith pat ''!'' then ''!'' else []);
          p1 = drop (length bang) pat;
          first = (if startswith p1 '']'' then '']'' else []);
          p2 = drop (length first) p1;
          stuff = bang @ first @ takeWhile (\<lambda>c. c \<noteq> CHR '']'') p2;
          after = dropWhile (\<lambda>c. c \<noteq> CHR '']'') p2
      in if after = [] then None else Some (stuff, drop 1 after))"

lemma bracket_shorter: "bracket pat = Some (stuff, rest) \<Longrightarrow> length rest < Suc (length pat)"
proof -
  have dw: "length (dropWhile P xs) \<le> length xs" for P and xs :: string
    by (induction xs) auto
  assume "bracket pat = Some (stuff, rest)"
  then obtain p2 where r: "rest = drop 1 (dropWhile (\<lambda>c. c \<noteq> CHR '']'') p2)"
    and p2: "length p2 \<le> length pat"
    by (auto simp: bracket_def Let_def split: if_splits)
  have "length rest \<le> length p2"
    unfolding r using dw [of "\<lambda>c. c \<noteq> CHR '']''" p2] by simp
  with p2 show ?thesis by simp
qed

text \<open>The chunks of a bracket text: it is split at every hyphen that can make a range. The
  search for the first hyphen skips the first character (two after a leading \<^verbatim>\<open>!\<close>); after
  a hyphen at \<open>k\<close> the search goes on at \<open>k + 3\<close>, so it skips the two characters that follow.
  The last chunk is empty when the text ends with a range hyphen.\<close>

lemma chunk_rest_shorter:
  "CHR ''-'' \<in> set (drop skip s)
   \<Longrightarrow> length (drop 1 (dropWhile (\<lambda>c. c \<noteq> CHR ''-'') (drop skip s))) < length s"
proof -
  assume m: "CHR ''-'' \<in> set (drop skip s)"
  let ?d = "dropWhile (\<lambda>c. c \<noteq> CHR ''-'') (drop skip s)"
  have "?d \<noteq> []" using m by (auto simp: dropWhile_eq_Nil_conv)
  then have "length (drop 1 ?d) < length ?d" by (cases ?d) simp_all
  moreover have "length ?d \<le> length (drop skip s)" by (rule length_dropWhile_le)
  ultimately show ?thesis by simp
qed

function raw_chunks :: "nat \<Rightarrow> string \<Rightarrow> string list" where
  "raw_chunks skip s =
     (if CHR ''-'' \<in> set (drop skip s) then
        (take skip s @ takeWhile (\<lambda>c. c \<noteq> CHR ''-'') (drop skip s))
        # raw_chunks 2 (drop 1 (dropWhile (\<lambda>c. c \<noteq> CHR ''-'') (drop skip s)))
      else [s])"
  by pat_completeness auto
termination
  by (relation "measure (\<lambda>(skip, s). length s)") (auto dest: chunk_rest_shorter)

declare raw_chunks.simps [simp del]

text \<open>\<^verbatim>\<open>if chunk: chunks.append(chunk) else: chunks[-1] += '-'\<close>\<close>

fun close_chunks :: "string list \<Rightarrow> string list" where
  "close_chunks [c, []] = [c @ ''-'']"
| "close_chunks (c # chunks) = c # close_chunks chunks"
| "close_chunks [] = []"

text \<open>The loop that removes empty ranges, from the last chunk to the first: when the last
  character of a chunk is greater than the first of the next one, both characters go and
  the two chunks become one. The chunks it compares are never empty.\<close>

fun drop_empty_ranges :: "string list \<Rightarrow> string list" where
  "drop_empty_ranges (c # d # chunks) =
     (case drop_empty_ranges (d # chunks) of
        [] \<Rightarrow> [c]
      | e # es \<Rightarrow>
          if c \<noteq> [] \<and> e \<noteq> [] \<and> last c > hd e then (butlast c @ tl e) # es
          else c # e # es)"
| "drop_empty_ranges chunks = chunks"

text \<open>The members of the character set \<^verbatim>\<open>'-'.join(chunks)\<close>, in which the hyphens inside a
  chunk are escaped: every character of a chunk, and the range from the last character of
  a chunk to the first of the next.\<close>

fun chunk_items :: "string list \<Rightarrow> class_item list" where
  "chunk_items (c # d # chunks) =
     map Single c
     @ (case (rev c, d) of
          (a # _, b # _) \<Rightarrow> [Range a b]
        | _ \<Rightarrow> [])
     @ chunk_items (d # chunks)"
| "chunk_items [c] = map Single c"
| "chunk_items [] = []"

text \<open>The set a bracket text stands for. An empty text (an empty range was removed)
  matches nothing and a text that is only \<^verbatim>\<open>!\<close> matches every character; otherwise a
  leading \<^verbatim>\<open>!\<close> of the text that is left negates the set.\<close>

definition bracket_class :: "string \<Rightarrow> glob_item" where
  "bracket_class stuff =
     (let chunks = drop_empty_ranges
                     (close_chunks (raw_chunks (if startswith stuff ''!'' then 2 else 1) stuff))
      in case chunks of
           (c # first) # others \<Rightarrow>
             if c = CHR ''!'' then GClass True (chunk_items (first # others))
             else GClass False (chunk_items chunks)
         | _ \<Rightarrow> GClass False (chunk_items chunks))"

function translate :: "string \<Rightarrow> glob_item list" where
  "translate [] = []"
| "translate (c # pat) =
     (if c = CHR ''*'' then GStar # translate pat
      else if c = CHR ''?'' then GAny # translate pat
      else if c = CHR ''['' then
        (case bracket pat of
           None \<Rightarrow> GLit c # translate pat
         | Some (stuff, rest) \<Rightarrow> bracket_class stuff # translate rest)
      else GLit c # translate pat)"
  by pat_completeness auto
termination
  by (relation "measure length") (auto dest: bracket_shorter)

fun glob_match :: "glob_item list \<Rightarrow> string \<Rightarrow> bool" where
  "glob_match [] s = (s = [])"
| "glob_match (GStar # items) [] = glob_match items []"
| "glob_match (GStar # items) (c # s) = (glob_match items (c # s) \<or> glob_match (GStar # items) s)"
| "glob_match (GAny # items) [] = False"
| "glob_match (GAny # items) (c # s) = glob_match items s"
| "glob_match (GLit a # items) [] = False"
| "glob_match (GLit a # items) (c # s) = (c = a \<and> glob_match items s)"
| "glob_match (GClass neg members # items) [] = False"
| "glob_match (GClass neg members # items) (c # s) =
     (list_ex (in_class_item c) members = (\<not> neg) \<and> glob_match items s)"

definition fnmatch :: "string \<Rightarrow> string \<Rightarrow> bool" where
  "fnmatch name pat = glob_match (translate pat) name"

definition match_pattern :: "string \<Rightarrow> string \<Rightarrow> bool \<Rightarrow> bool" where
  "match_pattern pattern rel_path is_dir =
     (if endswith pattern ''/'' then
        (if \<not> is_dir then False
         else (let prefix = butlast pattern
               in rel_path = prefix \<or> startswith rel_path (prefix @ ''/'')))
      else fnmatch rel_path pattern \<or> fnmatch (basename rel_path) pattern)"

definition should_exclude ::
  "string \<Rightarrow> bool \<Rightarrow> string list \<Rightarrow> string list \<Rightarrow> string list \<Rightarrow> string list \<Rightarrow> string list \<Rightarrow> bool"
where
  "should_exclude rel_path is_dir exclude_dirs exclude_globs include_globs
       gitignore_patterns gitignore_neg_patterns =
     (let parts = split_on CHR ''/'' rel_path in
      if list_ex (\<lambda>part. part \<in> set exclude_dirs) parts then True
      else if list_ex (\<lambda>pattern. match_pattern pattern rel_path is_dir) exclude_globs then True
      else if gitignore_patterns \<noteq> []
              \<and> list_ex (\<lambda>p. match_pattern p rel_path is_dir) gitignore_patterns then
        (if gitignore_neg_patterns \<noteq> []
            \<and> list_ex (\<lambda>p. match_pattern p rel_path is_dir) gitignore_neg_patterns
         then False else True)
      else if include_globs \<noteq> [] then
        \<not> list_ex (\<lambda>p. match_pattern p rel_path is_dir) include_globs
      else False)"

text \<open>The loop of \<^verbatim>\<open>load_gitignore\<close> over the lines of \<^verbatim>\<open>.gitignore\<close>.\<close>

fun gitignore_lines :: "string list \<Rightarrow> string list \<times> string list" where
  "gitignore_lines [] = ([], [])"
| "gitignore_lines (raw # rest) =
     (let line = strip raw; (patterns, neg_patterns) = gitignore_lines rest in
      if line = [] \<or> startswith line ''#'' then (patterns, neg_patterns)
      else if startswith line ''!'' then (patterns, drop 1 line # neg_patterns)
      else (line # patterns, neg_patterns))"

subsection \<open>Regular expressions of the pattern tables\<close>

text \<open>
  The fragment of Python's \<^verbatim>\<open>re\<close> that \<^verbatim>\<open>SYMBOL_PATTERNS\<close> uses, with the semantics of
  its backtracking matcher: \<open>run r st\<close> lists every way \<open>r\<close> can match at the front of
  the remaining input, in the order the matcher tries them (greedy repetition first,
  alternatives left to right). \<^verbatim>\<open>pattern.match\<close> takes the first.
\<close>

datatype char_class = Space | Word | IdentStart | NotChar char

fun in_char_class :: "char \<Rightarrow> char_class \<Rightarrow> bool" where
  "in_char_class c Space = is_space c"
| "in_char_class c Word =
     ((CHR ''a'' \<le> c \<and> c \<le> CHR ''z'') \<or> (CHR ''A'' \<le> c \<and> c \<le> CHR ''Z'')
      \<or> (CHR ''0'' \<le> c \<and> c \<le> CHR ''9'') \<or> c = CHR ''_'')"
| "in_char_class c IdentStart =
     ((CHR ''a'' \<le> c \<and> c \<le> CHR ''z'') \<or> (CHR ''A'' \<le> c \<and> c \<le> CHR ''Z'') \<or> c = CHR ''_'')"
| "in_char_class c (NotChar a) = (c \<noteq> a)"

datatype regex =
    Lit string
  | Cls char_class
  | Cat regex regex
  | Alt regex regex
  | Opt regex
  | Star regex
  | Plus regex
  | Grp nat regex

type_synonym match_state = "string \<times> (nat \<rightharpoonup> string)"

text \<open>Greedy repetition: one more iteration is tried before stopping. An iteration must
  consume input, so the length of the input bounds the number of iterations.\<close>

fun star_run :: "(match_state \<Rightarrow> match_state list) \<Rightarrow> nat \<Rightarrow> match_state \<Rightarrow> match_state list" where
  "star_run step 0 st = [st]"
| "star_run step (Suc n) st =
     concat (map (star_run step n)
       (filter (\<lambda>st'. length (fst st') < length (fst st)) (step st))) @ [st]"

primrec run :: "regex \<Rightarrow> match_state \<Rightarrow> match_state list" where
  "run (Lit s) = (\<lambda>st. if startswith (fst st) s then [(drop (length s) (fst st), snd st)] else [])"
| "run (Cls cls) =
     (\<lambda>st. case fst st of
              [] \<Rightarrow> []
            | c # rest \<Rightarrow> if in_char_class c cls then [(rest, snd st)] else [])"
| "run (Cat r1 r2) = (\<lambda>st. concat (map (run r2) (run r1 st)))"
| "run (Alt r1 r2) = (\<lambda>st. run r1 st @ run r2 st)"
| "run (Opt r) = (\<lambda>st. run r st @ [st])"
| "run (Star r) = (\<lambda>st. star_run (run r) (length (fst st)) st)"
| "run (Plus r) =
     (\<lambda>st. concat (map (\<lambda>st'. star_run (run r) (length (fst st')) st') (run r st)))"
| "run (Grp i r) =
     (\<lambda>st. map (\<lambda>st'. (fst st',
                         (snd st')(i \<mapsto> take (length (fst st) - length (fst st')) (fst st))))
               (run r st))"

text \<open>\<^verbatim>\<open>pattern.match(line)\<close>: the groups of the first match at the start of the line.\<close>

definition re_match :: "regex \<Rightarrow> string \<Rightarrow> (nat \<rightharpoonup> string) option" where
  "re_match r line = (case run r (line, Map.empty) of [] \<Rightarrow> None | st # _ \<Rightarrow> Some (snd st))"

text \<open>\<^verbatim>\<open>match.group(i)\<close>. Every group of the patterns below takes part in every match.\<close>

definition group :: "(nat \<rightharpoonup> string) \<Rightarrow> nat \<Rightarrow> string" where
  "group m i = (case m i of None \<Rightarrow> [] | Some g \<Rightarrow> g)"

fun seq :: "regex list \<Rightarrow> regex" where
  "seq [] = Lit []"
| "seq [r] = r"
| "seq (r # rs) = Cat r (seq rs)"

fun alts :: "string list \<Rightarrow> regex" where
  "alts [] = Lit []"
| "alts [s] = Lit s"
| "alts (s # ss) = Alt (Lit s) (alts ss)"

subsection \<open>Symbol pattern tables\<close>

text \<open>\<^verbatim>\<open>^\s*(?:export\s+)?KEYWORD\s+(\w+)\<close>\<close>

definition ts_pattern :: "regex \<Rightarrow> regex" where
  "ts_pattern keyword =
     seq [Star (Cls Space), Opt (seq [Lit ''export'', Plus (Cls Space)]), keyword,
          Plus (Cls Space), Grp 1 (Plus (Cls Word))]"

text \<open>\<^verbatim>\<open>^\s*KEYWORD\s+(\w+)\<close>\<close>

definition py_pattern :: "string \<Rightarrow> regex" where
  "py_pattern keyword =
     seq [Star (Cls Space), Lit keyword, Plus (Cls Space), Grp 1 (Plus (Cls Word))]"

definition SWIFT_MODIFIERS :: "string list" where
  "SWIFT_MODIFIERS =
     [''public'', ''private'', ''internal'', ''open'', ''fileprivate'', ''final'', ''static'',
      ''class'', ''mutating'', ''nonisolated'', ''lazy'', ''override'', ''required'',
      ''convenience'']"

text \<open>\<^verbatim>\<open>^\s*(?:@\w+(?:\([^)]*\))?\s+)*(?:(?:public|...|convenience)\s+)*\<close>
  \<^verbatim>\<open>(class|struct|protocol|enum|typealias|actor)\s+([A-Za-z_]\w*)\<close>\<close>

definition swift_pattern :: regex where
  "swift_pattern =
     seq [Star (Cls Space),
          Star (seq [Lit ''@'', Plus (Cls Word),
                     Opt (seq [Lit ''('', Star (Cls (NotChar CHR '')'')), Lit '')'']),
                     Plus (Cls Space)]),
          Star (seq [alts SWIFT_MODIFIERS, Plus (Cls Space)]),
          Grp 1 (alts [''class'', ''struct'', ''protocol'', ''enum'', ''typealias'', ''actor'']),
          Plus (Cls Space),
          Grp 2 (seq [Cls IdentStart, Star (Cls Word)])]"

type_synonym patterns = "(regex \<times> string option) list"

definition TS_PATTERNS :: patterns where
  "TS_PATTERNS =
     [(ts_pattern (Lit ''class''), Some ''class''),
      (ts_pattern (Lit ''interface''), Some ''typealias''),
      (ts_pattern (Lit ''type''), Some ''typealias''),
      (ts_pattern (Lit ''enum''), Some ''enum''),
      (ts_pattern (Lit ''function''), Some ''func''),
      (ts_pattern (alts [''const'', ''let'', ''var'']), Some ''var'')]"

definition SYMBOL_PATTERNS :: "(string \<times> patterns) list" where
  "SYMBOL_PATTERNS =
     [(''.ts'', TS_PATTERNS),
      (''.tsx'', TS_PATTERNS),
      (''.js'', TS_PATTERNS),
      (''.jsx'', TS_PATTERNS),
      (''.py'', [(py_pattern ''class'', Some ''class''), (py_pattern ''def'', Some ''func'')]),
      (''.swift'', [(swift_pattern, None)])]"

subsection \<open>File scanner\<close>

record symbol =
  sym_name :: string
  sym_kind :: string
  sym_path :: string
  sym_line :: int

text \<open>What the run sees of one candidate file: whether \<^verbatim>\<open>os.path.getsize\<close> and
  \<^verbatim>\<open>getmtime\<close> succeed and what they return, the lines that iterating over the open file
  yields (each with its line terminator), and whether opening or reading raises once
  those lines are consumed. The modification time is carried along and never inspected.\<close>

record file_data =
  stat_ok :: bool
  fsize :: int
  fmtime :: int
  flines :: "string list"
  read_fails :: bool

definition KINDS :: "string list" where
  "KINDS = [''class'', ''struct'', ''func'', ''protocol'', ''enum'', ''typealias'', ''var'', ''let'']"

text \<open>The kind normalisation of \<^verbatim>\<open>scan_file\<close>. The test for \<^verbatim>\<open>actor\<close> is an \<^verbatim>\<open>if\<close> of its
  own; the chain \<^verbatim>\<open>if interface / elif function / elif const / else\<close> runs after it.\<close>

definition normalize_kind :: "string \<Rightarrow> string" where
  "normalize_kind kind =
     (if kind \<notin> set KINDS then
        (let kind1 = (if kind \<in> {''actor''} then ''class'' else kind) in
         if kind1 \<in> {''interface''} then ''typealias''
         else if kind1 \<in> {''function''} then ''func''
         else if kind1 \<in> {''const''} then ''var''
         else ''typealias'')
      else kind)"

text \<open>The \<^verbatim>\<open>for pattern, kind in patterns\<close> loop: name and kind of the first pattern
  that matches the line.\<close>

fun match_patterns :: "patterns \<Rightarrow> string \<Rightarrow> (string \<times> string) option" where
  "match_patterns [] line = None"
| "match_patterns ((pattern, kind) # rest) line =
     (case re_match pattern line of
        None \<Rightarrow> match_patterns rest line
      | Some m \<Rightarrow>
          (case kind of
             None \<Rightarrow> Some (group m 2, group m 1)
           | Some k \<Rightarrow> Some (group m 1, k)))"

text \<open>The part of the loop body after the byte checks: the symbol the line yields, if
  any.\<close>

definition line_symbol :: "patterns option \<Rightarrow> string \<Rightarrow> int \<Rightarrow> string \<Rightarrow> symbol option" where
  "line_symbol pats rel_path line_count line =
     (case pats of
        None \<Rightarrow> None
      | Some ps \<Rightarrow>
          if ps = [] then None
          else (let stripped = strip line in
            if stripped = [] \<or> startswith stripped '':'' then None
            else if startswith stripped ''#'' \<or> startswith stripped ''//'' then None
            else if startswith stripped ''/*'' \<or> startswith stripped ''*'' then None
            else (case match_patterns ps line of
                    None \<Rightarrow> None
                  | Some (name, kind) \<Rightarrow>
                      Some \<lparr>sym_name = name, sym_kind = normalize_kind kind,
                            sym_path = rel_path, sym_line = line_count\<rparr>)))"

text \<open>The \<^verbatim>\<open>for line in f\<close> loop of \<^verbatim>\<open>scan_file\<close>. The result is \<^verbatim>\<open>None\<close> when reading
  raises, and otherwise the values of \<^verbatim>\<open>line_count\<close>, \<^verbatim>\<open>symbols\<close>, \<^verbatim>\<open>bytes_read\<close> and
  \<^verbatim>\<open>truncated\<close> when the loop is left.\<close>

fun scan_lines ::
  "string \<Rightarrow> int \<Rightarrow> int \<Rightarrow> int \<Rightarrow> bool \<Rightarrow> string list \<Rightarrow> patterns option \<Rightarrow> int \<Rightarrow> int
     \<Rightarrow> symbol list \<Rightarrow> (int \<times> symbol list \<times> int \<times> bool) option"
where
  "scan_lines rel_path max_file_bytes max_scan_lines remaining fails [] pats
       line_count bytes_read symbols =
     (if fails then None else Some (line_count, symbols, bytes_read, False))"
| "scan_lines rel_path max_file_bytes max_scan_lines remaining fails (line # rest) pats
       line_count bytes_read symbols =
     (let line_count = line_count + 1 in
      if line_count > max_scan_lines then Some (line_count, symbols, bytes_read, False)
      else if remaining \<le> 0 then Some (line_count, symbols, bytes_read, True)
      else
        (let bytes_read = bytes_read + int (length line) in
         if bytes_read > max_file_bytes then Some (line_count, symbols, bytes_read, True)
         else if bytes_read > remaining then Some (line_count, symbols, bytes_read, True)
         else
           (case line_symbol pats rel_path line_count line of
              None \<Rightarrow>
                scan_lines rel_path max_file_bytes max_scan_lines remaining fails rest pats
                  line_count bytes_read symbols
            | Some found \<Rightarrow>
                (let symbols = symbols @ [found];
                     pats = (if length symbols \<ge> MAX_SYMBOLS_PER_FILE then None else pats)
                 in scan_lines rel_path max_file_bytes max_scan_lines remaining fails rest
                      pats line_count bytes_read symbols))))"

text \<open>\<^verbatim>\<open>scan_file\<close>. The size test \<^verbatim>\<open>getsize / 1024 > max_file_kb\<close> is exact on integers.
  It is called right after \<^verbatim>\<open>main\<close> has read the size of the same file, so its own
  \<^verbatim>\<open>getsize\<close> succeeds.\<close>

definition scan_file ::
  "string \<Rightarrow> file_data \<Rightarrow> int \<Rightarrow> int \<Rightarrow> int \<Rightarrow> int \<Rightarrow> int option \<times> symbol list \<times> int \<times> bool"
where
  "scan_file rel_path f max_file_kb max_file_bytes max_scan_lines max_total_bytes_remaining =
     (if fsize f > max_file_kb * 1024 then (None, [], 0, False)
      else
        (let ext = lower (splitext_ext rel_path);
             pats = map_of SYMBOL_PATTERNS ext
         in case scan_lines rel_path max_file_bytes max_scan_lines max_total_bytes_remaining
                   (read_fails f) (flines f) pats 0 0 [] of
              None \<Rightarrow> (None, [], 0, False)
            | Some (line_count, symbols, bytes_read, truncated) \<Rightarrow>
                (Some line_count, symbols, bytes_read, truncated)))"

subsection \<open>Scan scheduler\<close>

text \<open>\<^verbatim>\<open>rel_path.split("/", 1)[0] if "/" in rel_path else rel_path\<close>: the first piece of a
  split at the first slash is what precedes that slash.\<close>

definition group_key :: "string \<Rightarrow> string" where
  "group_key rel_path =
     (if CHR ''/'' \<in> set rel_path then takeWhile (\<lambda>c. c \<noteq> CHR ''/'') rel_path else rel_path)"

definition ext_priority :: "string \<Rightarrow> int \<times> string" where
  "ext_priority rel_path =
     (let ext = lower (splitext_ext rel_path)
      in (case map_of EXT_SCAN_PRIORITY ext of None \<Rightarrow> 100 | Some p \<Rightarrow> p, rel_path))"

definition NAME_TOKENS :: "string list" where
  "NAME_TOKENS =
     [''orchestrator'', ''sherpa'', ''skillkit'', ''workflowpack'', ''workflow'', ''skill'',
      ''registry'', ''executor'', ''planner'', ''provider'', ''session'', ''manager'']"

definition name_priority :: "string \<Rightarrow> int" where
  "name_priority rel_path =
     (let base = lower (basename rel_path)
      in case find (\<lambda>(i, token). contains token base) (enumerate 0 NAME_TOKENS) of
           Some (i, token) \<Rightarrow> int i
         | None \<Rightarrow> int (length NAME_TOKENS) + 1)"

text \<open>The sort key of \<^verbatim>\<open>grouped[k].sort\<close>.\<close>

definition scan_key :: "string \<times> 'a \<Rightarrow> int \<times> int \<times> string" where
  "scan_key item = (fst (ext_priority (fst item)), name_priority (fst item), fst item)"

text \<open>The dictionary \<^verbatim>\<open>grouped\<close>, in insertion order:
  \<^verbatim>\<open>grouped.setdefault(key, []).append(item)\<close>.\<close>

fun setdefault_append :: "(string \<times> 'a list) list \<Rightarrow> string \<Rightarrow> 'a \<Rightarrow> (string \<times> 'a list) list" where
  "setdefault_append [] key item = [(key, [item])]"
| "setdefault_append ((k, items) # grouped) key item =
     (if k = key then (k, items @ [item]) # grouped
      else (k, items) # setdefault_append grouped key item)"

definition group_files :: "(string \<times> 'a) list \<Rightarrow> (string \<times> (string \<times> 'a) list) list" where
  "group_files files =
     foldl (\<lambda>grouped item. setdefault_append grouped (group_key (fst item)) item) [] files"

text \<open>\<^verbatim>\<open>grouped[k]\<close>; the scheduler only indexes with keys of the dictionary.\<close>

definition lookup :: "(string \<times> 'a list) list \<Rightarrow> string \<Rightarrow> 'a list" where
  "lookup grouped k = (case map_of grouped k of None \<Rightarrow> [] | Some items \<Rightarrow> items)"

text \<open>One pass of \<^verbatim>\<open>for k in keys\<close> inside the \<^verbatim>\<open>while True\<close> loop, on the state
  \<^verbatim>\<open>(indices, ordered, progressed)\<close>.\<close>

fun round_robin_pass ::
  "(string \<Rightarrow> 'a list) \<Rightarrow> string list \<Rightarrow> (string \<Rightarrow> nat) \<Rightarrow> 'a list \<Rightarrow> bool
     \<Rightarrow> (string \<Rightarrow> nat) \<times> 'a list \<times> bool"
where
  "round_robin_pass grouped [] indices ordered progressed = (indices, ordered, progressed)"
| "round_robin_pass grouped (k # keys) indices ordered progressed =
     (let idx = indices k in
      if idx \<ge> length (grouped k) then round_robin_pass grouped keys indices ordered progressed
      else round_robin_pass grouped keys (indices(k := idx + 1)) (ordered @ [grouped k ! idx]) True)"

text \<open>What is left to schedule: the measure that makes the \<^verbatim>\<open>while True\<close> loop end.\<close>

definition remaining_items :: "(string \<Rightarrow> 'a list) \<Rightarrow> string list \<Rightarrow> (string \<Rightarrow> nat) \<Rightarrow> nat" where
  "remaining_items grouped keys indices = (\<Sum>k\<in>set keys. length (grouped k) - indices k)"

lemma round_robin_pass_indices:
  "round_robin_pass grouped keys indices ordered progressed = (indices', ordered', progressed')
   \<Longrightarrow> indices k \<le> indices' k"
proof (induction keys arbitrary: indices ordered progressed)
  case Nil
  then show ?case by simp
next
  case (Cons a keys)
  show ?case
  proof (cases "indices a \<ge> length (grouped a)")
    case True
    with Cons show ?thesis by simp
  next
    case False
    with Cons.prems have
      "round_robin_pass grouped keys (indices(a := indices a + 1))
         (ordered @ [grouped a ! indices a]) True = (indices', ordered', progressed')"
      by (simp add: Let_def)
    from Cons.IH [OF this] show ?thesis
      by (cases "k = a") (simp_all split: if_splits)
  qed
qed

lemma round_robin_pass_progress:
  "round_robin_pass grouped keys indices ordered False = (indices', ordered', True)
   \<Longrightarrow> \<exists>k\<in>set keys. indices k < length (grouped k) \<and> indices k < indices' k"
proof (induction keys)
  case Nil
  then show ?case by simp
next
  case (Cons a keys)
  show ?case
  proof (cases "indices a \<ge> length (grouped a)")
    case True
    with Cons show ?thesis by simp
  next
    case False
    with Cons.prems have
      "round_robin_pass grouped keys (indices(a := indices a + 1))
         (ordered @ [grouped a ! indices a]) True = (indices', ordered', True)"
      by (simp add: Let_def)
    from round_robin_pass_indices [OF this, of a] False show ?thesis
      by auto
  qed
qed

lemma round_robin_pass_decreases:
  assumes "round_robin_pass grouped keys indices ordered False = (indices', ordered', True)"
  shows "remaining_items grouped keys indices' < remaining_items grouped keys indices"
proof -
  from round_robin_pass_progress [OF assms] obtain k where
    k: "k \<in> set keys" "indices k < length (grouped k)" "indices k < indices' k"
    by blast
  have le: "length (grouped j) - indices' j \<le> length (grouped j) - indices j" for j
    using round_robin_pass_indices [OF assms, of j] by simp
  have lt: "length (grouped k) - indices' k < length (grouped k) - indices k"
    using k by simp
  show ?thesis
    unfolding remaining_items_def
    by (rule sum_strict_mono_ex1) (use le lt k in auto)
qed

function round_robin ::
  "(string \<Rightarrow> 'a list) \<Rightarrow> string list \<Rightarrow> (string \<Rightarrow> nat) \<Rightarrow> 'a list \<Rightarrow> 'a list"
where
  "round_robin grouped keys indices ordered =
     (case round_robin_pass grouped keys indices ordered False of
        (indices', ordered', progressed) \<Rightarrow>
          if \<not> progressed then ordered' else round_robin grouped keys indices' ordered')"
  by pat_completeness auto
termination
  apply (relation "measure (\<lambda>(grouped, keys, indices, ordered). remaining_items grouped keys indices)")
   apply simp
  apply simp
  subgoal for grouped keys indices ordered indices' y ordered' progressed
    using round_robin_pass_decreases [of grouped keys indices ordered indices' ordered']
    by simp
  done

declare round_robin.simps [simp del]

definition reorder_files_for_scan :: "(string \<times> 'a) list \<Rightarrow> (string \<times> 'a) list" where
  "reorder_files_for_scan files =
     (let grouped = group_files files;
          keys = sort (map fst grouped);
          grouped = map (\<lambda>(k, items). (k, sort_key scan_key items)) grouped
      in round_robin (lookup grouped) keys (\<lambda>k. 0) [])"

subsection \<open>The repository as a value\<close>

text \<open>A directory lists its entries by name. A directory that cannot be listed shows
  the program nothing, exactly as an empty one does, so it is modelled as empty.\<close>

datatype node = File file_data | Dir "(string \<times> node) list"

record path_filter =
  exclude_dirs :: "string list"
  exclude_globs :: "string list"
  include_globs :: "string list"
  gitignore_patterns :: "string list"
  gitignore_neg_patterns :: "string list"

text \<open>The call \<^verbatim>\<open>should_exclude(rel, is_dir, exclude_dirs, exclude_globs, include_globs,
  gitignore_patterns, gitignore_neg_patterns)\<close> that file discovery and the tree builder
  both make.\<close>

definition excluded :: "path_filter \<Rightarrow> string \<Rightarrow> bool \<Rightarrow> bool" where
  "excluded flt rel is_dir =
     should_exclude rel is_dir (exclude_dirs flt) (exclude_globs flt) (include_globs flt)
       (gitignore_patterns flt) (gitignore_neg_patterns flt)"

text \<open>\<^verbatim>\<open>f"{rel_dir}/{entry}" if rel_dir else entry\<close>\<close>

definition rel_join :: "string \<Rightarrow> string \<Rightarrow> string" where
  "rel_join rel_dir entry = (if rel_dir \<noteq> [] then rel_dir @ ''/'' @ entry else entry)"

text \<open>\<^verbatim>\<open>load_gitignore\<close>: the patterns and negation patterns of the \<^verbatim>\<open>.gitignore\<close> at
  the root; none when it is missing or reading it raises.\<close>

definition load_gitignore :: "(string \<times> node) list \<Rightarrow> string list \<times> string list" where
  "load_gitignore root =
     (case map_of root ''.gitignore'' of
        None \<Rightarrow> ([], [])
      | Some (Dir entries) \<Rightarrow> ([], [])
      | Some (File f) \<Rightarrow> if read_fails f then ([], []) else gitignore_lines (flines f))"

subsection \<open>File discovery\<close>

lemma entry_smaller:
  "(name, n) \<in> set entries \<Longrightarrow> size n < Suc (size_list (size_prod (\<lambda>x. 0) size) entries)"
  by (induction entries) auto

text \<open>\<^verbatim>\<open>iter_files\<close>: \<^verbatim>\<open>os.walk\<close> top-down. For each directory the files that pass the
  filter are yielded in sorted order, then the walk descends into the sorted
  subdirectories that were not pruned.\<close>

function iter_files :: "path_filter \<Rightarrow> string \<Rightarrow> (string \<times> node) list \<Rightarrow> (string \<times> file_data) list" where
  "iter_files flt rel_dir_norm entries =
     concat (map (\<lambda>(filename, n).
                    case n of
                      File f \<Rightarrow>
                        if excluded flt (rel_join rel_dir_norm filename) False then []
                        else [(rel_join rel_dir_norm filename, f)]
                    | Dir children \<Rightarrow> [])
                 (sort_key fst entries))
     @ concat (map (\<lambda>(d, n).
                      case n of
                        File f \<Rightarrow> []
                      | Dir children \<Rightarrow>
                          if excluded flt (rel_join rel_dir_norm d) True then []
                          else iter_files flt (rel_join rel_dir_norm d) children)
                   (sort_key fst entries))"
  by pat_completeness auto
termination
  by (relation "measure (\<lambda>(flt, rel_dir_norm, entries). size_list (size_prod (\<lambda>x. 0) size) entries)")
     (auto dest: entry_smaller)

declare iter_files.simps [simp del]

text \<open>The loop of \<^verbatim>\<open>main\<close> that keeps at most \<^verbatim>\<open>max_files\<close> candidates.\<close>

fun collect_files :: "int \<Rightarrow> 'a list \<Rightarrow> 'a list \<Rightarrow> 'a list \<times> bool" where
  "collect_files max_files [] files = (files, False)"
| "collect_files max_files (item # rest) files =
     (if int (length files) \<ge> max_files then (files, True)
      else collect_files max_files rest (files @ [item]))"

subsection \<open>Tree builder\<close>

definition indent :: "int \<Rightarrow> string" where
  "indent depth = concat (replicate (nat depth) ''  '')"

function walk :: "path_filter \<Rightarrow> int \<Rightarrow> string \<Rightarrow> int \<Rightarrow> (string \<times> node) list \<Rightarrow> string list" where
  "walk flt max_depth rel_dir depth entries =
     (if depth > max_depth then []
      else
        concat (map (\<lambda>(entry, n).
                       case n of
                         File f \<Rightarrow> []
                       | Dir children \<Rightarrow>
                           if excluded flt (rel_join rel_dir entry) True then []
                           else (indent depth @ entry @ ''/'')
                                # (if depth < max_depth
                                   then walk flt max_depth (rel_join rel_dir entry) (depth + 1) children
                                   else []))
                    (sort_key fst entries))
        @ concat (map (\<lambda>(entry, n).
                         case n of
                           File f \<Rightarrow>
                             if excluded flt (rel_join rel_dir entry) False then []
                             else [indent depth @ entry]
                         | Dir children \<Rightarrow> [])
                      (sort_key fst entries)))"
  by pat_completeness auto
termination
  by (relation "measure (\<lambda>(flt, max_depth, rel_dir, depth, entries). nat (max_depth - depth))") auto

declare walk.simps [simp del]

text \<open>\<^verbatim>\<open>"\n".join(lines)\<close>\<close>

fun join_lines :: "string list \<Rightarrow> string" where
  "join_lines [] = []"
| "join_lines [l] = l"
| "join_lines (l # ls) = l @ ''\<newline>'' @ join_lines ls"

text \<open>\<^verbatim>\<open>s.rfind(c)\<close>: the last index of the character, or \<open>-1\<close>.\<close>

definition rfind :: "string \<Rightarrow> char \<Rightarrow> int" where
  "rfind s c =
     (if c \<in> set s then int (length s) - 1 - int (length (takeWhile (\<lambda>x. x \<noteq> c) (rev s)))
      else - 1)"

text \<open>The end of \<^verbatim>\<open>build_tree\<close>, from the rendered lines.\<close>

definition cut_tree :: "string list \<Rightarrow> int \<Rightarrow> string \<times> bool" where
  "cut_tree lines max_chars =
     (let tree = join_lines lines in
      if int (length tree) \<le> max_chars then (tree, False)
      else
        (let truncated = slice_to max_chars tree;
             last_newline = rfind truncated CHR ''\<newline>'';
             truncated = (if last_newline > 0 then slice_to last_newline truncated else truncated)
         in (truncated, True)))"

definition build_tree :: "(string \<times> node) list \<Rightarrow> int \<Rightarrow> int \<Rightarrow> path_filter \<Rightarrow> string \<times> bool" where
  "build_tree root max_depth max_chars flt = cut_tree (walk flt max_depth [] 0 root) max_chars"

subsection \<open>Budget ledger and the scan loop of \<^verbatim>\<open>main\<close>\<close>

record args =
  max_tree_chars :: int
  max_symbols :: int
  max_top_files :: int
  max_hotspots :: int
  max_tree_depth :: int
  max_file_kb :: int
  max_file_bytes :: int
  max_scan_lines :: int
  max_files :: int
  max_total_bytes :: int
  arg_include :: "string list"
  arg_exclude :: "string list"

text \<open>The variables that the scan loop of \<^verbatim>\<open>main\<close> updates. \<^verbatim>\<open>line_counts\<close> is a
  dictionary, kept in insertion order.\<close>

record ledger =
  file_infos :: "(string \<times> int \<times> int) list"
  symbols :: "symbol list"
  line_counts :: "(string \<times> int) list"
  symbols_truncated :: bool
  total_bytes :: int
  file_bytes_truncated :: bool
  total_bytes_truncated :: bool

definition initial_ledger :: ledger where
  "initial_ledger =
     \<lparr>file_infos = [], symbols = [], line_counts = [], symbols_truncated = False,
      total_bytes = 0, file_bytes_truncated = False, total_bytes_truncated = False\<rparr>"

text \<open>\<^verbatim>\<open>d[key] = v\<close> on a dictionary in insertion order.\<close>

fun dict_set :: "('k \<times> 'v) list \<Rightarrow> 'k \<Rightarrow> 'v \<Rightarrow> ('k \<times> 'v) list" where
  "dict_set [] key v = [(key, v)]"
| "dict_set ((k, old) # d) key v =
     (if k = key then (k, v) # d else (k, old) # dict_set d key v)"

definition should_scan :: "string \<Rightarrow> bool" where
  "should_scan rel_path =
     (let ext = lower (splitext_ext rel_path);
          base = lower (basename rel_path);
          pats = map_of SYMBOL_PATTERNS ext
      in pats \<noteq> None \<or> base \<in> set IMPORTANT_FILENAMES \<or> ext \<in> {''.md'', ''.yml'', ''.yaml''})"

text \<open>The symbol bookkeeping of one iteration.\<close>

definition collect_symbols :: "args \<Rightarrow> symbol list \<Rightarrow> ledger \<Rightarrow> ledger" where
  "collect_symbols a file_symbols st =
     (if \<not> symbols_truncated st \<and> file_symbols \<noteq> [] then
        (let remaining = max_symbols a - int (length (symbols st)) in
         if remaining \<le> 0 then st\<lparr>symbols_truncated := True\<rparr>
         else
           (let st = st\<lparr>symbols := symbols st @ slice_to remaining file_symbols\<rparr> in
            if int (length (symbols st)) \<ge> max_symbols a then st\<lparr>symbols_truncated := True\<rparr>
            else st))
      else st)"

text \<open>The byte bookkeeping of one iteration, after \<^verbatim>\<open>scan_file\<close> has returned.\<close>

definition account_bytes :: "args \<Rightarrow> int \<Rightarrow> bool \<Rightarrow> ledger \<Rightarrow> ledger" where
  "account_bytes a bytes_read truncated st =
     (let st = st\<lparr>total_bytes := total_bytes st + bytes_read\<rparr>;
          st = (if truncated then
                  (if total_bytes st \<ge> max_total_bytes a then st\<lparr>total_bytes_truncated := True\<rparr>
                   else st\<lparr>file_bytes_truncated := True\<rparr>)
                else st)
      in if total_bytes st \<ge> max_total_bytes a then st\<lparr>total_bytes_truncated := True\<rparr> else st)"

text \<open>One iteration of \<^verbatim>\<open>for rel_path, abs_path in files_for_scan\<close>.\<close>

definition scan_step :: "args \<Rightarrow> ledger \<Rightarrow> string \<times> file_data \<Rightarrow> ledger" where
  "scan_step a st item =
     (let rel_path = fst item; f = snd item in
      if \<not> stat_ok f then st
      else
        (let st = st\<lparr>file_infos := file_infos st @ [(rel_path, fsize f, fmtime f)]\<rparr> in
         if should_scan rel_path \<and> total_bytes st < max_total_bytes a then
           (case scan_file rel_path f (max_file_kb a) (max_file_bytes a) (max_scan_lines a)
                   (max_total_bytes a - total_bytes st) of
              (line_count, file_symbols, bytes_read, truncated) \<Rightarrow>
                (let st = account_bytes a bytes_read truncated st;
                     st = (case line_count of
                             None \<Rightarrow> st
                           | Some n \<Rightarrow> st\<lparr>line_counts := dict_set (line_counts st) rel_path n\<rparr>)
                 in collect_symbols a file_symbols st))
         else st))"

definition scan_all :: "args \<Rightarrow> ledger \<Rightarrow> (string \<times> file_data) list \<Rightarrow> ledger" where
  "scan_all a st files = foldl (scan_step a) st files"

subsection \<open>Ranker\<close>

definition CORE_TOKENS :: "string list" where
  "CORE_TOKENS = [''/src/'', ''/sources/'', ''/core/'', ''/services/'', ''/plugins/'']"

definition in_core_dir :: "string \<Rightarrow> bool" where
  "in_core_dir path =
     (let path_norm = lower (''/'' @ path) in list_ex (\<lambda>token. contains token path_norm) CORE_TOKENS)"

text \<open>\<^verbatim>\<open>score_file\<close>, the closure of \<^verbatim>\<open>main\<close> over \<^verbatim>\<open>line_counts\<close>. Each \<^verbatim>\<open>if\<close> of the source
  is one step on the pair \<^verbatim>\<open>(score, reason)\<close>.\<close>

definition score_file :: "(string \<times> int) list \<Rightarrow> string \<Rightarrow> int \<times> string" where
  "score_file lcs path =
     (let base = lower (basename path);
          (score, reason) = (0, ''other'');
          (score, reason) =
            (if base \<in> set IMPORTANT_FILENAMES then (score + 100, ''config'') else (score, reason));
          (score, reason) =
            (if startswith base ''readme'' then (score + 120, ''readme'') else (score, reason));
          (score, reason) =
            (if base \<in> set ENTRYPOINT_FILENAMES then (score + 60, ''entrypoint'')
             else (score, reason));
          (score, reason) =
            (if in_core_dir path then (score + 15, if reason = ''other'' then ''core'' else reason)
             else (score, reason))
      in case map_of lcs path of
           None \<Rightarrow> (score, reason)
         | Some n \<Rightarrow> (score + min (n div 50) 40, if n \<ge> 400 then ''large'' else reason))"

definition top_files_of :: "args \<Rightarrow> ledger \<Rightarrow> (string \<times> string) list" where
  "top_files_of a st =
     (let scored = map (\<lambda>info. case score_file (line_counts st) (fst info) of
                                  (score, reason) \<Rightarrow> (score, fst info, reason))
                       (file_infos st);
          scored = sort_key (\<lambda>x. (- fst x, fst (snd x))) scored
      in map (\<lambda>x. (fst (snd x), snd (snd x))) (slice_to (max_top_files a) scored))"

text \<open>The hotspot loop over the sorted line counts, with its \<^verbatim>\<open>break\<close>.\<close>

fun hotspots_loop ::
  "int \<Rightarrow> (string \<times> int) list \<Rightarrow> (string \<times> string list) list \<Rightarrow> (string \<times> string list) list"
where
  "hotspots_loop cap [] hotspots = hotspots"
| "hotspots_loop cap ((path, n) # rest) hotspots =
     (if int (length hotspots) \<ge> cap then hotspots
      else
        (let signals = (if n \<ge> 400 then [''large''] else [])
                       @ (if in_core_dir path then [''core''] else [])
         in hotspots_loop cap rest
              (if signals \<noteq> [] then hotspots @ [(path, signals)] else hotspots)))"

definition hotspots_of :: "args \<Rightarrow> ledger \<Rightarrow> (string \<times> string list) list" where
  "hotspots_of a st =
     hotspots_loop (max_hotspots a) (sort_key (\<lambda>x. (- snd x, fst x)) (line_counts st)) []"

subsection \<open>Report\<close>

record report =
  rep_git_head :: string
  rep_tree :: string
  rep_top_files :: "(string \<times> string) list"
  rep_symbols :: "symbol list"
  rep_hotspots :: "(string \<times> string list) list"
  rep_notes :: "string list"

definition notes_of ::
  "args \<Rightarrow> ledger \<Rightarrow> bool \<Rightarrow> bool \<Rightarrow> nat \<Rightarrow> nat \<Rightarrow> string list \<Rightarrow> string \<Rightarrow> string list"
where
  "notes_of a st tree_truncated files_truncated n_top_files n_hotspots gitignore git_head =
     (if tree_truncated then [''tree truncated''] else [])
     @ (if symbols_truncated st then [''symbols truncated''] else [])
     @ (if files_truncated then [''files truncated''] else [])
     @ (if file_bytes_truncated st then [''file bytes truncated''] else [])
     @ (if total_bytes_truncated st then [''total bytes truncated''] else [])
     @ (if int n_top_files \<ge> max_top_files a then [''top_files truncated''] else [])
     @ (if int n_hotspots \<ge> max_hotspots a then [''hotspots truncated''] else [])
     @ (if gitignore \<noteq> [] then [''.gitignore patterns applied (basic)''] else [])
     @ (if git_head = [] then [''git head unavailable''] else [])"

text \<open>The part of \<^verbatim>\<open>main\<close> from the reordered candidates on: scan loop, tree, ranking,
  notes and the output object. \<open>git_head\<close> is what \<^verbatim>\<open>run_git\<close> returned.\<close>

definition assemble ::
  "args \<Rightarrow> string \<Rightarrow> path_filter \<Rightarrow> (string \<times> node) list \<Rightarrow> bool \<Rightarrow> (string \<times> file_data) list
     \<Rightarrow> report"
where
  "assemble a git_head flt root files_truncated files_for_scan =
     (let st = scan_all a initial_ledger files_for_scan;
          (tree, tree_truncated) = build_tree root (max_tree_depth a) (max_tree_chars a) flt;
          top_files = top_files_of a st;
          sorted_symbols = sort_key (\<lambda>s. (sym_path s, sym_line s, sym_name s)) (symbols st);
          hotspots = hotspots_of a st
      in \<lparr>rep_git_head = git_head,
          rep_tree = tree,
          rep_top_files = top_files,
          rep_symbols = slice_to (max_symbols a) sorted_symbols,
          rep_hotspots = hotspots,
          rep_notes = notes_of a st tree_truncated files_truncated (length top_files)
                        (length hotspots) (gitignore_patterns flt) git_head\<rparr>)"

text \<open>\<^verbatim>\<open>main\<close>. The only fatal condition is a root that is not a directory.\<close>

definition main :: "args \<Rightarrow> string \<Rightarrow> node \<Rightarrow> string + report" where
  "main a git_head repo_root =
     (case repo_root of
        File f \<Rightarrow> Inl ''repo_root is not a directory''
      | Dir root \<Rightarrow>
          (let (gitignore, gitignore_neg) = load_gitignore root;
               flt = \<lparr>exclude_dirs = DEFAULT_EXCLUDED_DIRS, exclude_globs = arg_exclude a,
                      include_globs = arg_include a, gitignore_patterns = gitignore,
                      gitignore_neg_patterns = gitignore_neg\<rparr>;
               (files, files_truncated) = collect_files (max_files a) (iter_files flt [] root) [];
               files_for_scan = reorder_files_for_scan files
           in Inr (assemble a git_head flt root files_truncated files_for_scan)))"

definition default_args :: args where
  "default_args =
     \<lparr>max_tree_chars = DEFAULT_MAX_TREE_CHARS, max_symbols = DEFAULT_MAX_SYMBOLS,
      max_top_files = DEFAULT_MAX_TOP_FILES, max_hotspots = DEFAULT_MAX_HOTSPOTS,
      max_tree_depth = DEFAULT_MAX_TREE_DEPTH, max_file_kb = DEFAULT_MAX_FILE_KB,
      max_file_bytes = DEFAULT_MAX_FILE_BYTES, max_scan_lines = DEFAULT_MAX_SCAN_LINES,
      max_files = DEFAULT_MAX_FILES, max_total_bytes = DEFAULT_MAX_TOTAL_BYTES,
      arg_include = [], arg_exclude = []\<rparr>"

section \<open>Fixtures and specification-side definitions\<close>

abbreviation any_match :: "string list \<Rightarrow> string \<Rightarrow> bool \<Rightarrow> bool" where
  "any_match pats rel_path is_dir \<equiv> list_ex (\<lambda>p. match_pattern p rel_path is_dir) pats"

abbreviation under_excluded_dir :: "string list \<Rightarrow> string \<Rightarrow> bool" where
  "under_excluded_dir dirs rel_path \<equiv> list_ex (\<lambda>part. part \<in> set dirs) (split_on CHR ''/'' rel_path)"

text \<open>A readable file with the given lines, of the size of their bytes.\<close>

definition text_file :: "string list \<Rightarrow> file_data" where
  "text_file ls =
     \<lparr>stat_ok = True, fsize = int (length (concat ls)), fmtime = 0, flines = ls,
      read_fails = False\<rparr>"

text \<open>A readable file of \<open>n\<close> three-byte lines.\<close>

definition readme_file :: "nat \<Rightarrow> file_data" where
  "readme_file n =
     \<lparr>stat_ok = True, fsize = 3 * int n, fmtime = 0, flines = replicate n ''hi\<newline>'',
      read_fails = False\<rparr>"

text \<open>Line count, byte count and truncation flag of a result of the scan loop.\<close>

definition counts :: "(int \<times> symbol list \<times> int \<times> bool) option \<Rightarrow> (int \<times> int \<times> bool) option" where
  "counts r = map_option (\<lambda>(n, syms, b, t). (n, b, t)) r"

text \<open>The symbols that the lines of a file yield under a pattern table, were there no
  cap on their number: one for every line on which \<^verbatim>\<open>line_symbol\<close> finds one, in line
  order. \<open>n\<close> is the number of lines before the first of them.\<close>

fun symbols_of_lines :: "patterns option \<Rightarrow> string \<Rightarrow> int \<Rightarrow> string list \<Rightarrow> symbol list" where
  "symbols_of_lines pats rel_path n [] = []"
| "symbols_of_lines pats rel_path n (line # rest) =
     (case line_symbol pats rel_path (n + 1) line of
        None \<Rightarrow> symbols_of_lines pats rel_path (n + 1) rest
      | Some found \<Rightarrow> found # symbols_of_lines pats rel_path (n + 1) rest)"

text \<open>The fully rendered tree, before the character cap is applied.\<close>

definition render_tree :: "(string \<times> node) list \<Rightarrow> int \<Rightarrow> path_filter \<Rightarrow> string" where
  "render_tree root max_depth flt = join_lines (walk flt max_depth [] 0 root)"

text \<open>\<open>p\<close> is a prefix of \<open>tree\<close> that stops at the end of the tree or right before a line
  feed of it.\<close>

definition ends_at_line_boundary :: "string \<Rightarrow> string \<Rightarrow> bool" where
  "ends_at_line_boundary tree p =
     (take (length p) tree = p
      \<and> (length p = length tree \<or> (length p < length tree \<and> tree ! length p = CHR ''\<newline>'')))"

text \<open>The path filter of a run without globs and without a \<^verbatim>\<open>.gitignore\<close>.\<close>

definition default_filter :: path_filter where
  "default_filter =
     \<lparr>exclude_dirs = DEFAULT_EXCLUDED_DIRS, exclude_globs = [], include_globs = [],
      gitignore_patterns = [], gitignore_neg_patterns = []\<rparr>"

text \<open>A repository with one file at the root and one in \<^verbatim>\<open>src\<close>.\<close>

definition small_repo :: "(string \<times> node) list" where
  "small_repo =
     [(''configuration.yaml'', File (text_file [''a: 1\<newline>''])),
      (''src'', Dir [(''main.py'', File (text_file [''def main():\<newline>'']))])]"

text \<open>The byte length of the longest line of any candidate file (0 when there is none).\<close>

definition longest_line :: "(string \<times> file_data) list \<Rightarrow> int" where
  "longest_line files =
     fold max (concat (map (\<lambda>item. map (\<lambda>line. int (length line)) (flines (snd item))) files)) 0"

text \<open>The entries of \<^verbatim>\<open>file_infos\<close> that a list of candidates adds.\<close>

definition infos_of :: "(string \<times> file_data) list \<Rightarrow> (string \<times> int \<times> int) list" where
  "infos_of files =
     map (\<lambda>item. (fst item, fsize (snd item), fmtime (snd item)))
       (filter (\<lambda>item. stat_ok (snd item)) files)"

text \<open>A file of one line of 39 bytes.\<close>

definition minified_js :: file_data where
  "minified_js = text_file [''const x = 1; const y = 2; const z = 3;\<newline>'']"

text \<open>The symbols in the tree: the lines of the candidate files that the pattern table of
  their extension recognises, with no cap applied.\<close>

definition true_symbol_count :: "(string \<times> file_data) list \<Rightarrow> nat" where
  "true_symbol_count files =
     sum_list (map (\<lambda>item.
         length (filter (\<lambda>line.
             line_symbol (map_of SYMBOL_PATTERNS (lower (splitext_ext (fst item)))) (fst item) 0 line
               \<noteq> None)
           (flines (snd item))))
       files)"

text \<open>The symbols that \<^verbatim>\<open>scan_file\<close> returns in one iteration of the scan loop (none when
  the iteration does not scan).\<close>

definition step_batch :: "args \<Rightarrow> ledger \<Rightarrow> string \<times> file_data \<Rightarrow> symbol list" where
  "step_batch a st item =
     (if stat_ok (snd item) \<and> should_scan (fst item) \<and> total_bytes st < max_total_bytes a
      then fst (snd (scan_file (fst item) (snd item) (max_file_kb a) (max_file_bytes a)
                       (max_scan_lines a) (max_total_bytes a - total_bytes st)))
      else [])"

fun scan_batches :: "args \<Rightarrow> ledger \<Rightarrow> (string \<times> file_data) list \<Rightarrow> symbol list list" where
  "scan_batches a st [] = []"
| "scan_batches a st (item # files) =
     step_batch a st item # scan_batches a (scan_step a st item) files"

text \<open>The number of symbols that the per-file scans of a run return.\<close>

definition emitted_symbol_count :: "args \<Rightarrow> (string \<times> file_data) list \<Rightarrow> nat" where
  "emitted_symbol_count a files = sum_list (map length (scan_batches a initial_ledger files))"

text \<open>A Python file of 201 function definitions.\<close>

definition big_py :: file_data where
  "big_py = text_file (replicate 201 ''def f():\<newline>'')"

text \<open>Membership in the top-level group \<open>k\<close>.\<close>

definition in_group :: "string \<Rightarrow> string \<times> 'a \<Rightarrow> bool" where
  "in_group k item = (group_key (fst item) = k)"

text \<open>The candidates of one top-level group, in scan order.\<close>

definition group_members :: "(string \<times> 'a) list \<Rightarrow> string \<Rightarrow> (string \<times> 'a) list" where
  "group_members files k = sort_key scan_key (filter (in_group k) files)"

text \<open>The top-level groups of a candidate list, in sorted order.\<close>

definition group_keys :: "(string \<times> 'a) list \<Rightarrow> string list" where
  "group_keys files = sort (remdups (map (\<lambda>item. group_key (fst item)) files))"

text \<open>Round \<open>r\<close> of the fair schedule: the file of rank \<open>r\<close> of every group that has one, in
  sorted group order. The schedule is the rounds one after the other.\<close>

definition fair_round :: "(string \<times> 'a) list \<Rightarrow> nat \<Rightarrow> (string \<times> 'a) list" where
  "fair_round files r =
     map (\<lambda>k. group_members files k ! r)
       (filter (\<lambda>k. r < length (group_members files k)) (group_keys files))"

definition fair_schedule :: "(string \<times> 'a) list \<Rightarrow> (string \<times> 'a) list" where
  "fair_schedule files = concat (map (fair_round files) [0..<length files])"

text \<open>Eight candidates in three top-level groups.\<close>

definition sample_files :: "(string \<times> nat) list" where
  "sample_files =
     [(''src/a.py'', 1), (''src/b.swift'', 2), (''README.md'', 3), (''src/x/session.py'', 4),
      (''lib/u.ts'', 5), (''lib/v.ts'', 6), (''lib/w.json'', 7), (''lib/a.json'', 8)]"

text \<open>The files that one pass appends: for every key, in order, the file at the key's
  index shifted by \<open>r\<close>, if the group has one.\<close>

definition layer :: "(string \<Rightarrow> 'a list) \<Rightarrow> string list \<Rightarrow> (string \<Rightarrow> nat) \<Rightarrow> nat \<Rightarrow> 'a list" where
  "layer grouped keys indices r =
     map (\<lambda>k. grouped k ! (indices k + r))
       (filter (\<lambda>k. indices k + r < length (grouped k)) keys)"

section \<open>Properties\<close>

subsection \<open>Path filter: gitignore negation\<close>

lemma list_ex_nonempty: "list_ex P xs \<Longrightarrow> xs \<noteq> []"
  by auto

text \<open>
  Claim C8. For every path: when a gitignore pattern matches and no negation pattern
  does, the path is excluded; when a gitignore pattern and a negation pattern both match
  and neither the excluded-directory set nor a caller exclude glob applies, the path is
  not excluded; a path under an excluded directory or matched by a caller exclude glob is
  excluded whatever the negation patterns are. A \<^verbatim>\<open>.gitignore\<close> with the lines \<^verbatim>\<open>*.log\<close>
  and \<^verbatim>\<open>!keep.log\<close> gives the pattern \<^verbatim>\<open>*.log\<close> and the negation \<^verbatim>\<open>keep.log\<close>, and with
  them \<^verbatim>\<open>keep.log\<close> is included while \<^verbatim>\<open>other.log\<close> is excluded.
\<close>

theorem gitignore_negation:
  "(any_match gi rel_path is_dir \<and> \<not> any_match neg rel_path is_dir
      \<longrightarrow> should_exclude rel_path is_dir dirs ex inc gi neg)
   \<and> (any_match gi rel_path is_dir \<and> any_match neg rel_path is_dir
        \<and> \<not> under_excluded_dir dirs rel_path \<and> \<not> any_match ex rel_path is_dir
      \<longrightarrow> \<not> should_exclude rel_path is_dir dirs ex inc gi neg)
   \<and> (under_excluded_dir dirs rel_path \<or> any_match ex rel_path is_dir
      \<longrightarrow> should_exclude rel_path is_dir dirs ex inc gi neg)
   \<and> gitignore_lines [''*.log\<newline>'', ''!keep.log\<newline>''] = ([''*.log''], [''keep.log''])
   \<and> \<not> should_exclude ''keep.log'' False DEFAULT_EXCLUDED_DIRS [] [] [''*.log''] [''keep.log'']
   \<and> should_exclude ''other.log'' False DEFAULT_EXCLUDED_DIRS [] [] [''*.log''] [''keep.log'']"
proof -
  have a: "any_match gi rel_path is_dir \<and> \<not> any_match neg rel_path is_dir
      \<longrightarrow> should_exclude rel_path is_dir dirs ex inc gi neg"
    by (auto simp: should_exclude_def Let_def dest: list_ex_nonempty)
  have b: "any_match gi rel_path is_dir \<and> any_match neg rel_path is_dir
        \<and> \<not> under_excluded_dir dirs rel_path \<and> \<not> any_match ex rel_path is_dir
      \<longrightarrow> \<not> should_exclude rel_path is_dir dirs ex inc gi neg"
    by (auto simp: should_exclude_def Let_def dest: list_ex_nonempty)
  have c: "under_excluded_dir dirs rel_path \<or> any_match ex rel_path is_dir
      \<longrightarrow> should_exclude rel_path is_dir dirs ex inc gi neg"
    by (auto simp: should_exclude_def Let_def)
  have d: "gitignore_lines [''*.log\<newline>'', ''!keep.log\<newline>''] = ([''*.log''], [''keep.log''])"
    by code_simp
  have e: "\<not> should_exclude ''keep.log'' False DEFAULT_EXCLUDED_DIRS [] [] [''*.log''] [''keep.log'']"
    by code_simp
  have f: "should_exclude ''other.log'' False DEFAULT_EXCLUDED_DIRS [] [] [''*.log''] [''keep.log'']"
    by code_simp
  from a b c d e f show ?thesis by blast
qed

theorem gitignore_negation_witness:
  "should_exclude ''logs/other.log'' False DEFAULT_EXCLUDED_DIRS [] [] [''*.log''] [''keep.log'']
   \<and> \<not> should_exclude ''logs/keep.log'' False DEFAULT_EXCLUDED_DIRS [''*.tmp''] [''*.py''] [''*.log''] [''keep.log'']
   \<and> should_exclude ''build/keep.log'' False DEFAULT_EXCLUDED_DIRS [] [] [''*.log''] [''keep.log'']
   \<and> should_exclude ''logs/keep.log'' False DEFAULT_EXCLUDED_DIRS [''keep.*''] [] [''*.log''] [''keep.log'']"
proof -
  have m1: "any_match [''*.log''] ''logs/other.log'' False \<and> \<not> any_match [''keep.log''] ''logs/other.log'' False"
    by code_simp
  have m2: "any_match [''*.log''] ''logs/keep.log'' False \<and> any_match [''keep.log''] ''logs/keep.log'' False
        \<and> \<not> under_excluded_dir DEFAULT_EXCLUDED_DIRS ''logs/keep.log'' \<and> \<not> any_match [''*.tmp''] ''logs/keep.log'' False"
    by code_simp
  have m3: "under_excluded_dir DEFAULT_EXCLUDED_DIRS ''build/keep.log'' \<or> any_match [] ''build/keep.log'' False"
    by code_simp
  have m4: "under_excluded_dir DEFAULT_EXCLUDED_DIRS ''logs/keep.log'' \<or> any_match [''keep.*''] ''logs/keep.log'' False"
    by code_simp
  note g = gitignore_negation [where gi = "[''*.log'']" and neg = "[''keep.log'']"
      and is_dir = False and dirs = DEFAULT_EXCLUDED_DIRS]
  show ?thesis
    using g [where rel_path = "''logs/other.log''" and ex = "[]" and inc = "[]"]
      g [where rel_path = "''logs/keep.log''" and ex = "[''*.tmp'']" and inc = "[''*.py'']"]
      g [where rel_path = "''build/keep.log''" and ex = "[]" and inc = "[]"]
      g [where rel_path = "''logs/keep.log''" and ex = "[''keep.*'']" and inc = "[]"]
      m1 m2 m3 m4
    by blast
qed

subsection \<open>Ranker: reason precedence\<close>

lemma entrypoint_not_readme:
  "base \<in> set ENTRYPOINT_FILENAMES \<Longrightarrow> \<not> startswith base ''readme''"
  by (auto simp: ENTRYPOINT_FILENAMES_def startswith_def)

lemma entrypoint_not_important:
  "base \<in> set ENTRYPOINT_FILENAMES \<Longrightarrow> base \<notin> set IMPORTANT_FILENAMES"
  by (auto simp: ENTRYPOINT_FILENAMES_def IMPORTANT_FILENAMES_def)

text \<open>
  Claim C2, as stated, fails: \<^verbatim>\<open>score_file\<close> assigns \<^verbatim>\<open>large\<close> to every file with at least 400
  scanned lines, whatever reason its basename earned. A \<^verbatim>\<open>README.md\<close> and a
  \<^verbatim>\<open>package.json\<close> of 400 lines are reported as \<^verbatim>\<open>large\<close>, also in the report of a whole
  run.
\<close>

theorem reason_precedence_counterexample:
  "lower (basename ''README.md'') \<in> set IMPORTANT_FILENAMES
   \<and> startswith (lower (basename ''README.md'')) ''readme''
   \<and> score_file [(''README.md'', 400)] ''README.md'' = (228, ''large'')
   \<and> lower (basename ''package.json'') \<in> set IMPORTANT_FILENAMES
   \<and> score_file [(''package.json'', 400)] ''package.json'' = (108, ''large'')
   \<and> map_sum id rep_top_files (main default_args ''abc'' (Dir [(''README.md'', File (readme_file 400))]))
       = Inr [(''README.md'', ''large'')]"
  by code_simp

text \<open>
  Claim C2, amended. For every file whose scanned line count is at least 400 the reported
  reason is \<^verbatim>\<open>large\<close>: the forced reason replaces \<^verbatim>\<open>readme\<close> and \<^verbatim>\<open>config\<close> as it replaces
  \<^verbatim>\<open>other\<close>, \<^verbatim>\<open>entrypoint\<close> and \<^verbatim>\<open>core\<close>. A file whose basename earns \<^verbatim>\<open>readme\<close> or \<^verbatim>\<open>config\<close>
  keeps that reason when it has no recorded line count or fewer than 400 lines.
\<close>

theorem large_overrides_every_reason:
  "(map_of lcs path = Some n \<and> n \<ge> 400 \<longrightarrow> snd (score_file lcs path) = ''large'')
   \<and> ((map_of lcs path = None \<or> (\<exists>n. map_of lcs path = Some n \<and> n < 400))
        \<and> startswith (lower (basename path)) ''readme''
       \<longrightarrow> snd (score_file lcs path) = ''readme'')
   \<and> ((map_of lcs path = None \<or> (\<exists>n. map_of lcs path = Some n \<and> n < 400))
        \<and> lower (basename path) \<in> set IMPORTANT_FILENAMES
        \<and> \<not> startswith (lower (basename path)) ''readme''
       \<longrightarrow> snd (score_file lcs path) = ''config'')"
proof -
  have a: "map_of lcs path = Some n \<and> n \<ge> 400 \<longrightarrow> snd (score_file lcs path) = ''large''"
    by (simp add: score_file_def Let_def split: prod.splits)
  have b: "(map_of lcs path = None \<or> (\<exists>n. map_of lcs path = Some n \<and> n < 400))
        \<and> startswith (lower (basename path)) ''readme''
       \<longrightarrow> snd (score_file lcs path) = ''readme''"
    using entrypoint_not_readme [of "lower (basename path)"]
    by (auto simp: score_file_def Let_def split: prod.splits)
  have c: "(map_of lcs path = None \<or> (\<exists>n. map_of lcs path = Some n \<and> n < 400))
        \<and> lower (basename path) \<in> set IMPORTANT_FILENAMES
        \<and> \<not> startswith (lower (basename path)) ''readme''
       \<longrightarrow> snd (score_file lcs path) = ''config''"
    using entrypoint_not_important [of "lower (basename path)"]
    by (auto simp: score_file_def Let_def split: prod.splits)
  from a b c show ?thesis by blast
qed

theorem large_overrides_every_reason_witness:
  "snd (score_file [(''docs/README.md'', 1200)] ''docs/README.md'') = ''large''
   \<and> snd (score_file [(''docs/README.md'', 399)] ''docs/README.md'') = ''readme''
   \<and> snd (score_file [] ''src/package.json'') = ''config''"
proof -
  have h1: "map_of [(''docs/README.md'', 1200)] ''docs/README.md'' = Some (1200 :: int) \<and> (1200 :: int) \<ge> 400"
    by simp
  have h2: "(map_of [(''docs/README.md'', 399 :: int)] ''docs/README.md'' = None
             \<or> (\<exists>n. map_of [(''docs/README.md'', 399 :: int)] ''docs/README.md'' = Some n \<and> n < 400))
            \<and> startswith (lower (basename ''docs/README.md'')) ''readme''"
  proof -
    have "startswith (lower (basename ''docs/README.md'')) ''readme''" by code_simp
    then show ?thesis by simp
  qed
  have h3: "(map_of ([] :: (string \<times> int) list) ''src/package.json'' = None
             \<or> (\<exists>n. map_of ([] :: (string \<times> int) list) ''src/package.json'' = Some n \<and> n < 400))
            \<and> lower (basename ''src/package.json'') \<in> set IMPORTANT_FILENAMES
            \<and> \<not> startswith (lower (basename ''src/package.json'')) ''readme''"
  proof -
    have "lower (basename ''src/package.json'') \<in> set IMPORTANT_FILENAMES
            \<and> \<not> startswith (lower (basename ''src/package.json'')) ''readme''" by code_simp
    then show ?thesis by simp
  qed
  show ?thesis
    using large_overrides_every_reason [where lcs = "[(''docs/README.md'', 1200)]" and path = "''docs/README.md''" and n = 1200]
      large_overrides_every_reason [where lcs = "[(''docs/README.md'', 399)]" and path = "''docs/README.md''"]
      large_overrides_every_reason [where lcs = "[]" and path = "''src/package.json''"]
      h1 h2 h3
    by blast
qed

subsection \<open>File scanner: symbol kinds\<close>

lemma normalize_kind_closed: "normalize_kind kind \<in> set KINDS"
  by (simp add: normalize_kind_def KINDS_def)

lemma line_symbol_kind:
  "line_symbol pats rel_path n line = Some s \<Longrightarrow> sym_kind s \<in> set KINDS"
  by (auto simp: line_symbol_def Let_def normalize_kind_closed
      split: option.splits if_splits prod.splits)

lemma scan_lines_kinds:
  "scan_lines rel_path fb sl rem fails lines pats n b syms = Some (n', syms', b', t)
   \<Longrightarrow> list_all (\<lambda>s. sym_kind s \<in> set KINDS) syms
   \<Longrightarrow> list_all (\<lambda>s. sym_kind s \<in> set KINDS) syms'"
proof (induction lines arbitrary: pats n b syms)
  case Nil
  then show ?case by (simp split: if_splits)
next
  case (Cons line lines)
  show ?case
  proof (cases "line_symbol pats rel_path (n + 1) line")
    case None
    with Cons.prems Cons.IH [of pats "n + 1" "b + int (length line)" syms] show ?thesis
      by (simp add: Let_def split: if_splits)
  next
    case (Some found)
    from line_symbol_kind [OF Some] Cons.prems(2)
    have ok: "list_all (\<lambda>s. sym_kind s \<in> set KINDS) (syms @ [found])" by simp
    from Some Cons.prems(1) ok
      Cons.IH [of "if MAX_SYMBOLS_PER_FILE \<le> length (syms @ [found]) then None else pats"
                  "n + 1" "b + int (length line)" "syms @ [found]"]
    show ?thesis
      by (simp add: Let_def split: if_splits)
  qed
qed

text \<open>
  Every symbol that \<^verbatim>\<open>scan_file\<close> emits has its kind in the closed set.
\<close>

theorem scan_file_kinds_closed:
  "list_all (\<lambda>s. sym_kind s \<in> set KINDS) (fst (snd (scan_file rel_path f kb fb sl rem)))"
proof (cases "scan_lines rel_path fb sl rem (read_fails f) (flines f)
                (map_of SYMBOL_PATTERNS (lower (splitext_ext rel_path))) 0 0 []")
  case None
  then show ?thesis by (simp add: scan_file_def Let_def)
next
  case (Some r)
  obtain n' syms' b' t where r: "r = (n', syms', b', t)" by (cases r) auto
  from scan_lines_kinds [OF Some [unfolded r]] have "list_all (\<lambda>s. sym_kind s \<in> set KINDS) syms'"
    by simp
  with Some r show ?thesis by (simp add: scan_file_def Let_def)
qed

text \<open>
  Claim C3: every emitted kind is in the closed set (above), but a line that matches the
  Swift pattern with the keyword \<^verbatim>\<open>actor\<close> yields the kind \<^verbatim>\<open>typealias\<close>, not \<^verbatim>\<open>class\<close>: the
  assignment \<^verbatim>\<open>kind = "class"\<close> is followed by an \<^verbatim>\<open>if/elif/else\<close> chain whose \<^verbatim>\<open>else\<close>
  overwrites it.
\<close>

theorem swift_actor_kind:
  "map_option (\<lambda>m. (m 1, m 2)) (re_match swift_pattern ''actor Store {\<newline>'')
     = Some (Some ''actor'', Some ''Store'')
   \<and> normalize_kind ''actor'' = ''typealias''
   \<and> scan_file ''Store.swift'' (text_file [''actor Store {\<newline>'', ''}\<newline>'']) 512 524288 4000 20971520
     = (Some 2,
        [\<lparr>sym_name = ''Store'', sym_kind = ''typealias'', sym_path = ''Store.swift'', sym_line = 1\<rparr>],
        16, False)"
  by code_simp

subsection \<open>File scanner: the line cap\<close>

text \<open>
  Claim C5: with a cap of two lines, a file of three lines is recorded with a line count of
  three. The counter is incremented before it is compared with the cap, so a file with
  more lines than the cap is recorded with one line more than the cap.
\<close>

theorem line_count_exceeds_cap:
  "scan_file ''notes.md'' (text_file [''a\<newline>'', ''b\<newline>'', ''c\<newline>'']) 512 524288 2 20971520
     = (Some 3, [], 4, False)
   \<and> line_counts (scan_all (default_args\<lparr>max_scan_lines := 2\<rparr>) initial_ledger
        [(''notes.md'', text_file [''a\<newline>'', ''b\<newline>'', ''c\<newline>''])])
     = [(''notes.md'', 3)]"
  by code_simp

lemma scan_lines_line_count:
  "scan_lines rel_path fb sl rem fails lines pats n b syms = Some (n', syms', b', t)
   \<Longrightarrow> n \<le> sl \<Longrightarrow> n' \<le> sl + 1"
proof (induction lines arbitrary: pats n b syms)
  case Nil
  then show ?case by (simp split: if_splits)
next
  case (Cons line lines)
  show ?case
  proof (cases "line_symbol pats rel_path (n + 1) line")
    case None
    with Cons.prems Cons.IH [of pats "n + 1" "b + int (length line)" syms] show ?thesis
      by (simp add: Let_def split: if_splits)
  next
    case (Some found)
    with Cons.prems
      Cons.IH [of "if MAX_SYMBOLS_PER_FILE \<le> length (syms @ [found]) then None else pats"
                  "n + 1" "b + int (length line)" "syms @ [found]"]
    show ?thesis
      by (simp add: Let_def split: if_splits)
  qed
qed

text \<open>
  The recorded line count exceeds a non-negative cap by at most one.
\<close>

theorem scan_file_line_count_bound:
  "0 \<le> sl \<Longrightarrow> fst (scan_file rel_path f kb fb sl rem) = Some n \<Longrightarrow> n \<le> sl + 1"
proof -
  assume sl: "0 \<le> sl" and n: "fst (scan_file rel_path f kb fb sl rem) = Some n"
  from n obtain syms' b' t where
    "scan_lines rel_path fb sl rem (read_fails f) (flines f)
       (map_of SYMBOL_PATTERNS (lower (splitext_ext rel_path))) 0 0 [] = Some (n, syms', b', t)"
    by (auto simp: scan_file_def Let_def split: if_splits option.splits)
  from scan_lines_line_count [OF this] sl show ?thesis by simp
qed

subsection \<open>File scanner: the per-file symbol cap\<close>

lemma line_symbol_no_patterns [simp]: "line_symbol None rel_path n line = None"
  by (simp add: line_symbol_def)

lemma scan_lines_symbol_cap:
  "scan_lines rel_path fb sl rem fails lines pats n b syms = Some (n', syms', b', t)
   \<Longrightarrow> (if pats = None then length syms \<le> MAX_SYMBOLS_PER_FILE
        else length syms < MAX_SYMBOLS_PER_FILE)
   \<Longrightarrow> length syms' \<le> MAX_SYMBOLS_PER_FILE"
proof (induction lines arbitrary: pats n b syms)
  case Nil
  then show ?case by (simp split: if_splits)
next
  case (Cons line lines)
  show ?case
  proof (cases "line_symbol pats rel_path (n + 1) line")
    case None
    with Cons.prems Cons.IH [of pats "n + 1" "b + int (length line)" syms] show ?thesis
      by (simp add: Let_def split: if_splits)
  next
    case (Some found)
    then have pats: "pats \<noteq> None" by (cases pats) auto
    with Some Cons.prems
      Cons.IH [of "if MAX_SYMBOLS_PER_FILE \<le> length (syms @ [found]) then None else pats"
                  "n + 1" "b + int (length line)" "syms @ [found]"]
    show ?thesis
      by (simp add: Let_def split: if_splits)
  qed
qed

text \<open>With no pattern table left, the loop adds no symbol.\<close>

lemma scan_lines_saturated:
  "scan_lines rel_path fb sl rem fails lines None n b syms = Some (n', syms', b', t)
   \<Longrightarrow> syms' = syms"
proof (induction lines arbitrary: n b)
  case Nil
  then show ?case by (simp split: if_splits)
next
  case (Cons line lines)
  with Cons.IH [of "n + 1" "b + int (length line)"] show ?case
    by (simp add: Let_def split: if_splits)
qed

lemma scan_lines_counts:
  "counts (scan_lines rel_path fb sl rem fails lines pats n b syms)
   = counts (scan_lines rel_path' fb sl rem fails lines pats' n b syms')"
proof (induction lines arbitrary: pats pats' n b syms syms')
  case Nil
  show ?case by (simp add: counts_def)
next
  case (Cons line lines)
  have step: "counts (scan_lines rel_path fb sl rem fails lines p (n + 1) (b + int (length line)) s)
      = counts (scan_lines rel_path' fb sl rem fails lines p' (n + 1) (b + int (length line)) s')"
    for p p' s s'
    by (rule Cons.IH)
  show ?case
    by (cases "line_symbol pats rel_path (n + 1) line";
        cases "line_symbol pats' rel_path' (n + 1) line")
       (simp_all add: Let_def step, simp_all add: counts_def)
qed

text \<open>The loop keeps the first matches: as long as fewer than
  \<^verbatim>\<open>MAX_SYMBOLS_PER_FILE\<close> symbols are collected the pattern table is the one of the file,
  and once that many are collected it is dropped. The lines that reach the pattern
  matching are all lines before the one that leaves the loop, or all lines of the file.\<close>

lemma scan_lines_advances:
  "scan_lines rel_path fb sl rem fails lines pats n b syms = Some (n', syms', b', t)
   \<Longrightarrow> n \<le> n' \<and> (t \<longrightarrow> n < n')"
proof (induction lines arbitrary: pats n b syms)
  case Nil
  then show ?case by (simp split: if_splits)
next
  case (Cons line lines)
  show ?case
  proof (cases "line_symbol pats rel_path (n + 1) line")
    case None
    with Cons.prems Cons.IH [of pats "n + 1" "b + int (length line)" syms] show ?thesis
      by (auto simp: Let_def split: if_splits)
  next
    case (Some found)
    with Cons.prems
      Cons.IH [of "if MAX_SYMBOLS_PER_FILE \<le> length (syms @ [found]) then None else pats"
                  "n + 1" "b + int (length line)" "syms @ [found]"]
    show ?thesis
      by (auto simp: Let_def split: if_splits)
  qed
qed

lemma scan_lines_first_matches:
  assumes "scan_lines rel_path fb sl rem fails lines cur n b syms = Some (n', syms', b', t)"
    and "(cur = pats \<and> length syms < MAX_SYMBOLS_PER_FILE)
         \<or> (cur = None \<and> length syms = MAX_SYMBOLS_PER_FILE)"
  shows "syms' = take MAX_SYMBOLS_PER_FILE
           (syms @ symbols_of_lines pats rel_path n
              (take (nat (if t \<or> n' > sl then n' - n - 1 else n' - n)) lines))"
  using assms
proof (induction lines arbitrary: cur n b syms)
  case Nil
  then show ?case by (auto split: if_splits)
next
  case (Cons line lines)
  let ?K = "nat (if t \<or> n' > sl then n' - n - 1 else n' - n)"
  let ?K' = "nat (if t \<or> n' > sl then n' - (n + 1) - 1 else n' - (n + 1))"
  let ?b = "b + int (length line)"
  show ?case
  proof (cases "n + 1 > sl \<or> rem \<le> 0 \<or> ?b > fb \<or> ?b > rem")
    case True
    with Cons.prems(1) have r: "n' = n + 1" "syms' = syms" "t \<or> n' > sl"
      by (auto simp: Let_def split: if_splits)
    then have "?K = 0" by auto
    with r(2) Cons.prems(2) show ?thesis by auto
  next
    case False
    then have go: "\<not> n + 1 > sl" "\<not> rem \<le> 0" "\<not> ?b > fb" "\<not> ?b > rem" by auto
    have step: "?K = Suc ?K'"
      if "scan_lines rel_path fb sl rem fails lines c (n + 1) ?b s = Some (n', syms', b', t)"
      for c s
      using scan_lines_advances [OF that] go(1) by auto
    show ?thesis
    proof (cases "line_symbol cur rel_path (n + 1) line")
      case None
      with Cons.prems(1) go
      have run: "scan_lines rel_path fb sl rem fails lines cur (n + 1) ?b syms
                 = Some (n', syms', b', t)"
        by (simp add: Let_def)
      note ih = Cons.IH [OF run Cons.prems(2)]
      from Cons.prems(2) show ?thesis
      proof
        assume a: "cur = pats \<and> length syms < MAX_SYMBOLS_PER_FILE"
        with None ih step [OF run] show ?thesis by simp
      next
        assume a: "cur = None \<and> length syms = MAX_SYMBOLS_PER_FILE"
        with ih have "syms' = syms" by simp
        with a show ?thesis by simp
      qed
    next
      case (Some found)
      then have cur: "cur \<noteq> None" by (cases cur) auto
      with Cons.prems(2) have a: "cur = pats" "length syms < MAX_SYMBOLS_PER_FILE" by auto
      let ?c = "if MAX_SYMBOLS_PER_FILE \<le> length (syms @ [found]) then None else pats"
      from Some Cons.prems(1) go a
      have run: "scan_lines rel_path fb sl rem fails lines ?c (n + 1) ?b (syms @ [found])
                 = Some (n', syms', b', t)"
        by (simp add: Let_def)
      have inv: "(?c = pats \<and> length (syms @ [found]) < MAX_SYMBOLS_PER_FILE)
         \<or> (?c = None \<and> length (syms @ [found]) = MAX_SYMBOLS_PER_FILE)"
        using a(2) by auto
      note ih = Cons.IH [OF run inv]
      from Some a ih step [OF run] show ?thesis by simp
    qed
  qed
qed

text \<open>
  Claim C10. For every file and every choice of caps, \<^verbatim>\<open>scan_file\<close> emits at most
  \<^verbatim>\<open>MAX_SYMBOLS_PER_FILE\<close> = 25 symbols. Line count, byte count and truncation flag do not
  depend on the symbols collected: they are those of a scan of the same file under any
  other name (with another pattern table, or none). Once the pattern table is dropped,
  the loop returns the symbols it had. The symbols emitted are the first
  \<^verbatim>\<open>MAX_SYMBOLS_PER_FILE\<close> of those that the lines read yield, in line order: the lines read
  are the first \<open>line_count\<close> lines of the file, less the last one when the loop was left
  at a cap, so a match after the 25th counts as a line and as bytes and adds no symbol.
\<close>

theorem per_file_symbol_cap:
  "length (fst (snd (scan_file rel_path f kb fb sl rem))) \<le> MAX_SYMBOLS_PER_FILE
   \<and> MAX_SYMBOLS_PER_FILE = 25
   \<and> fst (scan_file rel_path f kb fb sl rem) = fst (scan_file rel_path' f kb fb sl rem)
   \<and> snd (snd (scan_file rel_path f kb fb sl rem)) = snd (snd (scan_file rel_path' f kb fb sl rem))
   \<and> (case scan_lines rel_path fb sl rem fails lines None n b syms of
         None \<Rightarrow> True
       | Some r \<Rightarrow> fst (snd r) = syms)
   \<and> fst (snd (scan_file rel_path f kb fb sl rem))
       = (case fst (scan_file rel_path f kb fb sl rem) of
            None \<Rightarrow> []
          | Some line_count \<Rightarrow>
              take MAX_SYMBOLS_PER_FILE
                (symbols_of_lines (map_of SYMBOL_PATTERNS (lower (splitext_ext rel_path)))
                   rel_path 0
                   (take (nat (if snd (snd (snd (scan_file rel_path f kb fb sl rem)))
                                   \<or> line_count > sl
                               then line_count - 1 else line_count))
                      (flines f))))"
proof -
  let ?run = "\<lambda>p. scan_lines p fb sl rem (read_fails f) (flines f)
                    (map_of SYMBOL_PATTERNS (lower (splitext_ext p))) 0 0 []"
  have cap: "length (fst (snd (scan_file rel_path f kb fb sl rem))) \<le> MAX_SYMBOLS_PER_FILE"
  proof (cases "?run rel_path")
    case None
    then show ?thesis by (simp add: scan_file_def Let_def)
  next
    case (Some r)
    obtain n' syms' b' t where r: "r = (n', syms', b', t)" by (cases r) auto
    have "length syms' \<le> MAX_SYMBOLS_PER_FILE"
      by (rule scan_lines_symbol_cap [OF Some [unfolded r]]) (simp add: MAX_SYMBOLS_PER_FILE_def)
    with Some r show ?thesis by (simp add: scan_file_def Let_def)
  qed
  have same: "counts (?run rel_path) = counts (?run rel_path')"
    by (rule scan_lines_counts)
  have lc: "fst (scan_file rel_path f kb fb sl rem) = fst (scan_file rel_path' f kb fb sl rem)"
    using same
    by (cases "?run rel_path"; cases "?run rel_path'")
       (auto simp: scan_file_def Let_def counts_def)
  have bt: "snd (snd (scan_file rel_path f kb fb sl rem))
            = snd (snd (scan_file rel_path' f kb fb sl rem))"
    using same
    by (cases "?run rel_path"; cases "?run rel_path'")
       (auto simp: scan_file_def Let_def counts_def)
  have sat: "(case scan_lines rel_path fb sl rem fails lines None n b syms of
         None \<Rightarrow> True
       | Some r \<Rightarrow> fst (snd r) = syms)"
    by (auto split: option.splits dest: scan_lines_saturated)
  have first: "fst (snd (scan_file rel_path f kb fb sl rem))
       = (case fst (scan_file rel_path f kb fb sl rem) of
            None \<Rightarrow> []
          | Some line_count \<Rightarrow>
              take MAX_SYMBOLS_PER_FILE
                (symbols_of_lines (map_of SYMBOL_PATTERNS (lower (splitext_ext rel_path)))
                   rel_path 0
                   (take (nat (if snd (snd (snd (scan_file rel_path f kb fb sl rem)))
                                   \<or> line_count > sl
                               then line_count - 1 else line_count))
                      (flines f))))"
  proof (cases "fsize f > kb * 1024")
    case True
    then show ?thesis by (simp add: scan_file_def)
  next
    case False
    show ?thesis
    proof (cases "?run rel_path")
      case None
      with False show ?thesis by (simp add: scan_file_def Let_def)
    next
      case (Some r)
      obtain n' syms' b' t where r: "r = (n', syms', b', t)" by (cases r) auto
      have "syms' = take MAX_SYMBOLS_PER_FILE
           ([] @ symbols_of_lines (map_of SYMBOL_PATTERNS (lower (splitext_ext rel_path)))
              rel_path 0
              (take (nat (if t \<or> n' > sl then n' - 0 - 1 else n' - 0)) (flines f)))"
        by (rule scan_lines_first_matches [OF Some [unfolded r]])
           (simp add: MAX_SYMBOLS_PER_FILE_def)
      with False Some r show ?thesis by (simp add: scan_file_def Let_def)
    qed
  qed
  have m: "MAX_SYMBOLS_PER_FILE = 25" by (simp add: MAX_SYMBOLS_PER_FILE_def)
  show ?thesis
    by (intro conjI cap m lc bt sat first)
qed

theorem per_file_symbol_cap_witness:
  "length (fst (snd (scan_file ''big.py'' (text_file (replicate 40 ''def f():\<newline>'')) 512 524288 4000 20971520))) = 25
   \<and> scan_file ''big.md'' (text_file (replicate 40 ''def f():\<newline>'')) 512 524288 4000 20971520
       = (Some 40, [], 360, False)
   \<and> fst (scan_file ''big.py'' (text_file (replicate 40 ''def f():\<newline>'')) 512 524288 4000 20971520) = Some 40
   \<and> snd (snd (scan_file ''big.py'' (text_file (replicate 40 ''def f():\<newline>'')) 512 524288 4000 20971520)) = (360, False)
   \<and> map sym_line (fst (snd (scan_file ''big.py'' (text_file (replicate 40 ''def f():\<newline>'')) 512 524288 4000 20971520)))
       = [1..25]
   \<and> length (symbols_of_lines (map_of SYMBOL_PATTERNS ''.py'') ''big.py'' 0
               (replicate 40 ''def f():\<newline>'')) = 40"
proof -
  let ?f = "text_file (replicate 40 ''def f():\<newline>'')"
  let ?X = "scan_file ''big.py'' ?f 512 524288 4000 20971520"
  have md: "scan_file ''big.md'' ?f 512 524288 4000 20971520 = (Some 40, [], 360, False)"
    by code_simp
  have ev: "map sym_line
      (case Some (40 :: int) of
         None \<Rightarrow> []
       | Some line_count \<Rightarrow>
           take MAX_SYMBOLS_PER_FILE
             (symbols_of_lines (map_of SYMBOL_PATTERNS (lower (splitext_ext ''big.py'')))
                ''big.py'' 0
                (take (nat (if snd (360 :: int, False) \<or> line_count > 4000
                            then line_count - 1 else line_count))
                   (flines ?f))))
     = [1..25]"
    by code_simp
  have all: "length (symbols_of_lines (map_of SYMBOL_PATTERNS ''.py'') ''big.py'' 0
               (replicate 40 ''def f():\<newline>'')) = 40"
    by code_simp
  note T = per_file_symbol_cap [where rel_path = "''big.py''" and rel_path' = "''big.md''"
      and f = ?f and kb = 512 and fb = 524288 and sl = 4000 and rem = 20971520]
  note t1 = T [THEN conjunct1]
  note t3 = T [THEN conjunct2, THEN conjunct2, THEN conjunct1]
  note t4 = T [THEN conjunct2, THEN conjunct2, THEN conjunct2, THEN conjunct1]
  note t6 = T [THEN conjunct2, THEN conjunct2, THEN conjunct2, THEN conjunct2, THEN conjunct2]
  have lc: "fst ?X = Some 40"
    using t3 by (simp only: md fst_conv)
  have bt: "snd (snd ?X) = (360, False)"
    using t4 by (simp only: md snd_conv)
  have lines: "map sym_line (fst (snd ?X)) = [1..25]"
    using ev by (subst t6) (simp only: lc bt)
  have "length (map sym_line (fst (snd ?X))) = length [1..25 :: int]"
    by (simp only: lines)
  then have len: "length (fst (snd ?X)) = 25"
    by simp
  show ?thesis
    by (intro conjI len md lc bt lines all)
qed

subsection \<open>Tree builder: the cut\<close>

lemma take_length_take: "take (length (take k xs)) xs = take k xs"
  by (cases "k \<le> length xs") (simp_all add: min_def)

lemma slice_to_prefix: "take (length (slice_to n xs)) xs = slice_to n xs"
  by (cases "0 \<le> n") (simp_all only: slice_to_def take_length_take if_True if_False)

lemma slice_to_length: "length (slice_to n xs) \<le> length xs"
  by (simp add: slice_to_def)

lemma rfind_found:
  assumes "c \<in> set s"
  shows "0 \<le> rfind s c \<and> rfind s c < int (length s) \<and> s ! nat (rfind s c) = c"
proof -
  let ?t = "takeWhile (\<lambda>x. x \<noteq> c) (rev s)"
  have le: "length ?t \<le> length (rev s)"
    by (rule length_takeWhile_le)
  have "length ?t \<noteq> length (rev s)"
  proof
    assume "length ?t = length (rev s)"
    then have "?t = rev s"
      by (metis takeWhile_dropWhile_id append_eq_conv_conj append_Nil2 length_0_conv
          length_append add_cancel_left_right)
    then have "\<forall>x\<in>set (rev s). x \<noteq> c" by (simp only: takeWhile_eq_all_conv)
    with assms show False by auto
  qed
  with le have lt: "length ?t < length (rev s)" by simp
  then have "\<not> (rev s ! length ?t \<noteq> c)"
    by (rule nth_length_takeWhile)
  then have "rev s ! length ?t = c" by simp
  moreover have "rev s ! length ?t = s ! (length s - Suc (length ?t))"
    using lt by (simp add: rev_nth)
  moreover have "nat (rfind s c) = length s - Suc (length ?t)"
    using assms lt by (simp add: rfind_def)
  ultimately show ?thesis using assms lt by (simp add: rfind_def)
qed

lemma rfind_missing: "c \<notin> set s \<Longrightarrow> rfind s c = - 1"
  by (simp add: rfind_def)

lemma cut_tree_fits:
  "int (length (join_lines lines)) \<le> max_chars \<Longrightarrow> cut_tree lines max_chars = (join_lines lines, False)"
  by (simp add: cut_tree_def)

lemma cut_tree_cuts:
  assumes "int (length (join_lines lines)) > max_chars"
  shows "snd (cut_tree lines max_chars)"
    and "take (length (fst (cut_tree lines max_chars))) (join_lines lines) = fst (cut_tree lines max_chars)"
    and "rfind (slice_to max_chars (join_lines lines)) CHR ''\<newline>'' > 0
         \<Longrightarrow> ends_at_line_boundary (join_lines lines) (fst (cut_tree lines max_chars))"
    and "rfind (slice_to max_chars (join_lines lines)) CHR ''\<newline>'' \<le> 0
         \<Longrightarrow> fst (cut_tree lines max_chars) = slice_to max_chars (join_lines lines)"
proof -
  let ?tree = "join_lines lines"
  let ?w = "slice_to max_chars ?tree"
  let ?i = "rfind ?w CHR ''\<newline>''"
  show "snd (cut_tree lines max_chars)"
    using assms by (simp add: cut_tree_def Let_def)
  show le: "?i \<le> 0 \<Longrightarrow> fst (cut_tree lines max_chars) = ?w"
    using assms by (simp add: cut_tree_def Let_def)
  have gt: "fst (cut_tree lines max_chars) = take (nat ?i) ?tree
            \<and> nat ?i < length ?tree \<and> ?tree ! nat ?i = CHR ''\<newline>''" if pos: "?i > 0"
  proof -
    from pos have "CHR ''\<newline>'' \<in> set ?w"
      using rfind_missing [of "CHR ''\<newline>''" ?w] by fastforce
    from rfind_found [OF this] have i: "nat ?i < length ?w" "?w ! nat ?i = CHR ''\<newline>''"
      by (simp_all add: nat_less_iff)
    obtain k where w: "?w = take k ?tree"
      by (cases "0 \<le> max_chars") (simp_all add: slice_to_def)
    from i(1) w have k: "nat ?i < k" "nat ?i < length ?tree" by simp_all
    have "fst (cut_tree lines max_chars) = take (nat ?i) ?w"
      using assms pos by (simp add: cut_tree_def Let_def slice_to_def)
    also have "\<dots> = take (nat ?i) ?tree"
      using k by (subst w) (simp add: min_def)
    finally have a: "fst (cut_tree lines max_chars) = take (nat ?i) ?tree" .
    have "?tree ! nat ?i = ?w ! nat ?i"
      using k by (subst w) simp
    with a k i show ?thesis by simp
  qed
  show "?i > 0 \<Longrightarrow> ends_at_line_boundary ?tree (fst (cut_tree lines max_chars))"
    using gt by (simp add: ends_at_line_boundary_def min_def)
  show "take (length (fst (cut_tree lines max_chars))) ?tree = fst (cut_tree lines max_chars)"
  proof (cases "?i > 0")
    case True
    with gt show ?thesis by (simp add: min_def)
  next
    case False
    with le show ?thesis by (simp add: slice_to_prefix)
  qed
qed

lemma rfind_split:
  assumes "c \<in> set s"
  shows "\<exists>pre suf. s = pre @ c # suf \<and> c \<notin> set suf \<and> rfind s c = int (length pre)"
proof -
  from split_list_last [OF assms] obtain pre suf where
    s: "s = pre @ c # suf" and suf: "c \<notin> set suf" by blast
  have "takeWhile (\<lambda>x. x \<noteq> c) (rev s) = rev suf"
    unfolding s using suf by (auto simp: takeWhile_tail)
  then have "rfind s c = int (length pre)"
    using assms by (simp add: rfind_def s)
  with s suf show ?thesis by blast
qed

text \<open>The window \<^verbatim>\<open>tree[:max_chars]\<close> of a cut, and what is kept of it.\<close>

lemma cut_tree_exact:
  assumes "int (length (join_lines lines)) > max_chars"
  shows "(rfind (slice_to max_chars (join_lines lines)) CHR ''\<newline>'' > 0)
         = (CHR ''\<newline>'' \<in> set (drop 1 (slice_to max_chars (join_lines lines))))"
    and "CHR ''\<newline>'' \<in> set (drop 1 (slice_to max_chars (join_lines lines)))
         \<Longrightarrow> fst (cut_tree lines max_chars)
               = take (nat (rfind (slice_to max_chars (join_lines lines)) CHR ''\<newline>''))
                   (join_lines lines)
             \<and> slice_to max_chars (join_lines lines)
               = fst (cut_tree lines max_chars) @ CHR ''\<newline>''
                 # drop (Suc (length (fst (cut_tree lines max_chars))))
                     (slice_to max_chars (join_lines lines))
             \<and> CHR ''\<newline>''
                 \<notin> set (drop (Suc (length (fst (cut_tree lines max_chars))))
                          (slice_to max_chars (join_lines lines)))"
    and "0 \<le> max_chars \<Longrightarrow> int (length (fst (cut_tree lines max_chars))) \<le> max_chars"
proof -
  let ?tree = "join_lines lines"
  let ?w = "slice_to max_chars ?tree"
  let ?i = "rfind ?w CHR ''\<newline>''"
  let ?p = "fst (cut_tree lines max_chars)"
  have split: "\<exists>pre suf. ?w = pre @ CHR ''\<newline>'' # suf \<and> CHR ''\<newline>'' \<notin> set suf
                 \<and> ?i = int (length pre) \<and> pre \<noteq> []"
    if m: "CHR ''\<newline>'' \<in> set (drop 1 ?w)"
  proof -
    from m have "CHR ''\<newline>'' \<in> set ?w" by (rule in_set_dropD)
    from rfind_split [OF this] obtain pre suf where
      w: "?w = pre @ CHR ''\<newline>'' # suf" and suf: "CHR ''\<newline>'' \<notin> set suf"
      and i: "?i = int (length pre)" by blast
    have "pre \<noteq> []"
    proof
      assume "pre = []"
      with w have "drop 1 ?w = suf" by simp
      with m suf show False by simp
    qed
    with w suf i show ?thesis by blast
  qed
  show iff: "(?i > 0) = (CHR ''\<newline>'' \<in> set (drop 1 ?w))"
  proof
    assume pos: "?i > 0"
    then have "CHR ''\<newline>'' \<in> set ?w"
      using rfind_missing [of "CHR ''\<newline>''" ?w] by fastforce
    from rfind_split [OF this] obtain pre suf where
      w: "?w = pre @ CHR ''\<newline>'' # suf" and i: "?i = int (length pre)" by blast
    from pos i obtain x pre' where "pre = x # pre'" by (cases pre) auto
    with w have "drop 1 ?w = pre' @ CHR ''\<newline>'' # suf" by simp
    then show "CHR ''\<newline>'' \<in> set (drop 1 ?w)" by simp
  next
    assume "CHR ''\<newline>'' \<in> set (drop 1 ?w)"
    from split [OF this] show "?i > 0" by auto
  qed
  show "?p = take (nat ?i) ?tree
        \<and> ?w = ?p @ CHR ''\<newline>'' # drop (Suc (length ?p)) ?w
        \<and> CHR ''\<newline>'' \<notin> set (drop (Suc (length ?p)) ?w)"
    if m: "CHR ''\<newline>'' \<in> set (drop 1 ?w)"
  proof -
    from split [OF m] obtain pre suf where
      w: "?w = pre @ CHR ''\<newline>'' # suf" and suf: "CHR ''\<newline>'' \<notin> set suf"
      and i: "?i = int (length pre)" and ne: "pre \<noteq> []" by blast
    from i ne have pos: "?i > 0" by simp
    have "?p = take (nat ?i) ?w"
      using assms pos by (simp add: cut_tree_def Let_def slice_to_def)
    also have "\<dots> = pre" by (subst (2) w) (simp add: i)
    finally have p: "?p = pre" .
    obtain k where wk: "?w = take k ?tree"
      by (cases "0 \<le> max_chars") (simp_all add: slice_to_def)
    have "length pre < length ?w" by (subst w) simp
    with wk have "length pre < k" by simp
    then have "take (length pre) ?tree = take (length pre) ?w"
      by (subst wk) (simp add: min_def)
    also have "\<dots> = pre" by (subst w) simp
    finally have "take (nat ?i) ?tree = pre" by (simp add: i)
    moreover have "drop (Suc (length pre)) ?w = suf" by (subst w) simp
    ultimately show ?thesis using p w suf by simp
  qed
  show "int (length ?p) \<le> max_chars" if nonneg: "0 \<le> max_chars"
  proof -
    have "?p = ?w \<or> ?p = slice_to ?i ?w"
      using assms by (simp add: cut_tree_def Let_def)
    then have "length ?p \<le> length ?w"
      using slice_to_length [of ?i ?w] by auto
    moreover have "int (length ?w) \<le> max_chars"
      using nonneg by (simp add: slice_to_def)
    ultimately show ?thesis by simp
  qed
qed

text \<open>
  Claim C4, as stated, fails: when the first \<^verbatim>\<open>max_chars\<close> characters of the rendered tree
  hold no line feed, \<^verbatim>\<open>build_tree\<close> returns them as they are. With a cap of three
  characters the tree that starts with the line \<^verbatim>\<open>src/\<close> is cut to \<^verbatim>\<open>src\<close>, in the middle of
  its first line.
\<close>

theorem tree_cut_counterexample:
  "render_tree small_repo 4 default_filter = ''src/\<newline>  main.py\<newline>configuration.yaml''
   \<and> build_tree small_repo 4 3 default_filter = (''src'', True)
   \<and> \<not> ends_at_line_boundary (render_tree small_repo 4 default_filter)
         (fst (build_tree small_repo 4 3 default_filter))"
  by code_simp

text \<open>
  Claim C4, amended. If the rendered tree fits the cap, \<^verbatim>\<open>build_tree\<close> returns it whole
  with the flag unset. Otherwise the flag is set and the result is a prefix of the
  rendered tree, never longer than a non-negative cap: it ends at a line boundary when the
  window \<^verbatim>\<open>tree[:max_chars]\<close> holds a line feed after its first character (the prefix then
  stops right before the last line feed of the window: the window is the result, a line
  feed, and a rest without line feed), and it is the window itself, possibly cut inside a
  line, when the window holds no such line feed.
\<close>

theorem tree_cut:
  "(int (length (render_tree root max_depth flt)) \<le> max_chars
      \<longrightarrow> build_tree root max_depth max_chars flt = (render_tree root max_depth flt, False))
   \<and> (int (length (render_tree root max_depth flt)) > max_chars
      \<longrightarrow> snd (build_tree root max_depth max_chars flt)
          \<and> take (length (fst (build_tree root max_depth max_chars flt)))
                (render_tree root max_depth flt)
              = fst (build_tree root max_depth max_chars flt)
          \<and> (rfind (slice_to max_chars (render_tree root max_depth flt)) CHR ''\<newline>'' > 0
              \<longrightarrow> ends_at_line_boundary (render_tree root max_depth flt)
                    (fst (build_tree root max_depth max_chars flt)))
          \<and> (rfind (slice_to max_chars (render_tree root max_depth flt)) CHR ''\<newline>'' \<le> 0
              \<longrightarrow> fst (build_tree root max_depth max_chars flt)
                  = slice_to max_chars (render_tree root max_depth flt))
          \<and> (rfind (slice_to max_chars (render_tree root max_depth flt)) CHR ''\<newline>'' > 0)
              = (CHR ''\<newline>'' \<in> set (drop 1 (slice_to max_chars (render_tree root max_depth flt))))
          \<and> (CHR ''\<newline>'' \<in> set (drop 1 (slice_to max_chars (render_tree root max_depth flt)))
              \<longrightarrow> fst (build_tree root max_depth max_chars flt)
                    = take (nat (rfind (slice_to max_chars (render_tree root max_depth flt))
                                   CHR ''\<newline>''))
                        (render_tree root max_depth flt)
                  \<and> slice_to max_chars (render_tree root max_depth flt)
                    = fst (build_tree root max_depth max_chars flt) @ CHR ''\<newline>''
                      # drop (Suc (length (fst (build_tree root max_depth max_chars flt))))
                          (slice_to max_chars (render_tree root max_depth flt))
                  \<and> CHR ''\<newline>''
                      \<notin> set (drop (Suc (length (fst (build_tree root max_depth max_chars flt))))
                               (slice_to max_chars (render_tree root max_depth flt))))
          \<and> (0 \<le> max_chars
              \<longrightarrow> int (length (fst (build_tree root max_depth max_chars flt))) \<le> max_chars))"
proof -
  let ?lines = "walk flt max_depth [] 0 root"
  have a: "int (length (join_lines ?lines)) \<le> max_chars
           \<longrightarrow> cut_tree ?lines max_chars = (join_lines ?lines, False)"
    by (simp add: cut_tree_fits)
  have b: "int (length (join_lines ?lines)) > max_chars
      \<longrightarrow> snd (cut_tree ?lines max_chars)
          \<and> take (length (fst (cut_tree ?lines max_chars))) (join_lines ?lines)
              = fst (cut_tree ?lines max_chars)
          \<and> (rfind (slice_to max_chars (join_lines ?lines)) CHR ''\<newline>'' > 0
              \<longrightarrow> ends_at_line_boundary (join_lines ?lines) (fst (cut_tree ?lines max_chars)))
          \<and> (rfind (slice_to max_chars (join_lines ?lines)) CHR ''\<newline>'' \<le> 0
              \<longrightarrow> fst (cut_tree ?lines max_chars) = slice_to max_chars (join_lines ?lines))
          \<and> (rfind (slice_to max_chars (join_lines ?lines)) CHR ''\<newline>'' > 0)
              = (CHR ''\<newline>'' \<in> set (drop 1 (slice_to max_chars (join_lines ?lines))))
          \<and> (CHR ''\<newline>'' \<in> set (drop 1 (slice_to max_chars (join_lines ?lines)))
              \<longrightarrow> fst (cut_tree ?lines max_chars)
                    = take (nat (rfind (slice_to max_chars (join_lines ?lines)) CHR ''\<newline>''))
                        (join_lines ?lines)
                  \<and> slice_to max_chars (join_lines ?lines)
                    = fst (cut_tree ?lines max_chars) @ CHR ''\<newline>''
                      # drop (Suc (length (fst (cut_tree ?lines max_chars))))
                          (slice_to max_chars (join_lines ?lines))
                  \<and> CHR ''\<newline>''
                      \<notin> set (drop (Suc (length (fst (cut_tree ?lines max_chars))))
                               (slice_to max_chars (join_lines ?lines))))
          \<and> (0 \<le> max_chars \<longrightarrow> int (length (fst (cut_tree ?lines max_chars))) \<le> max_chars)"
  proof
    assume gt: "int (length (join_lines ?lines)) > max_chars"
    note c = cut_tree_cuts [OF gt] and e = cut_tree_exact [OF gt]
    from e(2) have e2: "CHR ''\<newline>'' \<in> set (drop 1 (slice_to max_chars (join_lines ?lines)))
              \<longrightarrow> fst (cut_tree ?lines max_chars)
                    = take (nat (rfind (slice_to max_chars (join_lines ?lines)) CHR ''\<newline>''))
                        (join_lines ?lines)
                  \<and> slice_to max_chars (join_lines ?lines)
                    = fst (cut_tree ?lines max_chars) @ CHR ''\<newline>''
                      # drop (Suc (length (fst (cut_tree ?lines max_chars))))
                          (slice_to max_chars (join_lines ?lines))
                  \<and> CHR ''\<newline>''
                      \<notin> set (drop (Suc (length (fst (cut_tree ?lines max_chars))))
                               (slice_to max_chars (join_lines ?lines)))"
      by (rule impI)
    from c(3) have c3: "rfind (slice_to max_chars (join_lines ?lines)) CHR ''\<newline>'' > 0
              \<longrightarrow> ends_at_line_boundary (join_lines ?lines) (fst (cut_tree ?lines max_chars))"
      by (rule impI)
    from c(4) have c4: "rfind (slice_to max_chars (join_lines ?lines)) CHR ''\<newline>'' \<le> 0
              \<longrightarrow> fst (cut_tree ?lines max_chars) = slice_to max_chars (join_lines ?lines)"
      by (rule impI)
    from e(3) have e3: "0 \<le> max_chars
              \<longrightarrow> int (length (fst (cut_tree ?lines max_chars))) \<le> max_chars"
      by (rule impI)
    show "snd (cut_tree ?lines max_chars)
          \<and> take (length (fst (cut_tree ?lines max_chars))) (join_lines ?lines)
              = fst (cut_tree ?lines max_chars)
          \<and> (rfind (slice_to max_chars (join_lines ?lines)) CHR ''\<newline>'' > 0
              \<longrightarrow> ends_at_line_boundary (join_lines ?lines) (fst (cut_tree ?lines max_chars)))
          \<and> (rfind (slice_to max_chars (join_lines ?lines)) CHR ''\<newline>'' \<le> 0
              \<longrightarrow> fst (cut_tree ?lines max_chars) = slice_to max_chars (join_lines ?lines))
          \<and> (rfind (slice_to max_chars (join_lines ?lines)) CHR ''\<newline>'' > 0)
              = (CHR ''\<newline>'' \<in> set (drop 1 (slice_to max_chars (join_lines ?lines))))
          \<and> (CHR ''\<newline>'' \<in> set (drop 1 (slice_to max_chars (join_lines ?lines)))
              \<longrightarrow> fst (cut_tree ?lines max_chars)
                    = take (nat (rfind (slice_to max_chars (join_lines ?lines)) CHR ''\<newline>''))
                        (join_lines ?lines)
                  \<and> slice_to max_chars (join_lines ?lines)
                    = fst (cut_tree ?lines max_chars) @ CHR ''\<newline>''
                      # drop (Suc (length (fst (cut_tree ?lines max_chars))))
                          (slice_to max_chars (join_lines ?lines))
                  \<and> CHR ''\<newline>''
                      \<notin> set (drop (Suc (length (fst (cut_tree ?lines max_chars))))
                               (slice_to max_chars (join_lines ?lines))))
          \<and> (0 \<le> max_chars \<longrightarrow> int (length (fst (cut_tree ?lines max_chars))) \<le> max_chars)"
      by (intro conjI c(1) c(2) c3 c4 e(1) e2 e3)
  qed
  from a b show ?thesis
    unfolding build_tree_def render_tree_def by (rule conjI)
qed

theorem tree_cut_witness:
  "build_tree small_repo 4 100 default_filter = (''src/\<newline>  main.py\<newline>configuration.yaml'', False)
   \<and> snd (build_tree small_repo 4 20 default_filter)
   \<and> ends_at_line_boundary (render_tree small_repo 4 default_filter)
        (fst (build_tree small_repo 4 20 default_filter))
   \<and> fst (build_tree small_repo 4 20 default_filter) = ''src/\<newline>  main.py''
   \<and> slice_to 20 (render_tree small_repo 4 default_filter)
        = ''src/\<newline>  main.py'' @ CHR ''\<newline>'' # ''confi''
   \<and> int (length (fst (build_tree small_repo 4 20 default_filter))) \<le> 20
   \<and> fst (build_tree small_repo 4 3 default_filter)
       = slice_to 3 (render_tree small_repo 4 default_filter)"
proof -
  let ?tree = "render_tree small_repo 4 default_filter"
  have t: "?tree = ''src/\<newline>  main.py\<newline>configuration.yaml''"
    by code_simp
  have h1: "int (length ?tree) \<le> 100"
    by code_simp
  have h2: "int (length ?tree) > 20 \<and> rfind (slice_to 20 ?tree) CHR ''\<newline>'' > 0"
    by code_simp
  have h2': "CHR ''\<newline>'' \<in> set (drop 1 (slice_to 20 ?tree)) \<and> (0 :: int) \<le> 20"
    by code_simp
  have h3: "int (length ?tree) > 3 \<and> rfind (slice_to 3 ?tree) CHR ''\<newline>'' \<le> 0"
    by code_simp
  have b: "take (nat (rfind (slice_to 20 ?tree) CHR ''\<newline>'')) ?tree = ''src/\<newline>  main.py''"
    by code_simp
  have d: "drop (Suc (length ''src/\<newline>  main.py'')) (slice_to 20 ?tree) = ''confi''"
    by code_simp
  from tree_cut [of small_repo 4 default_filter 100] h1
  have c1: "build_tree small_repo 4 100 default_filter = (''src/\<newline>  main.py\<newline>configuration.yaml'', False)"
    by (simp only: t)
  note cut = tree_cut [of small_repo 4 default_filter 20]
  from cut h2
  have c2: "snd (build_tree small_repo 4 20 default_filter)
     \<and> ends_at_line_boundary ?tree (fst (build_tree small_repo 4 20 default_filter))"
    by blast
  from cut h2 h2'
  have c4: "fst (build_tree small_repo 4 20 default_filter)
              = take (nat (rfind (slice_to 20 ?tree) CHR ''\<newline>'')) ?tree"
    and c5: "slice_to 20 ?tree
              = fst (build_tree small_repo 4 20 default_filter) @ CHR ''\<newline>''
                # drop (Suc (length (fst (build_tree small_repo 4 20 default_filter))))
                    (slice_to 20 ?tree)"
    and c6: "int (length (fst (build_tree small_repo 4 20 default_filter))) \<le> 20"
    by blast+
  from c4 b have c7: "fst (build_tree small_repo 4 20 default_filter) = ''src/\<newline>  main.py''"
    by (rule trans)
  note c8 = c5 [unfolded c7 d]
  from tree_cut [of small_repo 4 default_filter 3] h3
  have c3: "fst (build_tree small_repo 4 3 default_filter) = slice_to 3 ?tree"
    by blast
  show ?thesis
    apply (intro conjI)
          apply (rule c1)
         apply (rule conjunct1 [OF c2])
        apply (rule conjunct2 [OF c2])
       apply (rule c7)
      apply (rule c8)
     apply (rule c6)
    apply (rule c3)
    done
qed


subsection \<open>Budget ledger: bytes\<close>

lemma fold_max_ge: "(m :: int) \<le> fold max xs m"
proof (induction xs arbitrary: m)
  case Nil
  show ?case by simp
next
  case (Cons x xs)
  have "m \<le> max x m" by simp
  also have "\<dots> \<le> fold max xs (max x m)" by (rule Cons.IH)
  finally show ?case by simp
qed

lemma fold_max_member: "x \<in> set xs \<Longrightarrow> (x :: int) \<le> fold max xs m"
proof (induction xs arbitrary: m)
  case Nil
  then show ?case by simp
next
  case (Cons y xs)
  show ?case
  proof (cases "x = y")
    case True
    have "x \<le> max y m" using True by simp
    also have "\<dots> \<le> fold max xs (max y m)" by (rule fold_max_ge)
    finally show ?thesis by simp
  next
    case False
    with Cons.prems have "x \<in> set xs" by simp
    from Cons.IH [OF this] show ?thesis by simp
  qed
qed

lemma longest_line_nonneg: "0 \<le> longest_line files"
  unfolding longest_line_def by (rule fold_max_ge)

lemma longest_line_bound:
  "item \<in> set files \<Longrightarrow> line \<in> set (flines (snd item)) \<Longrightarrow> int (length line) \<le> longest_line files"
  unfolding longest_line_def by (rule fold_max_member) auto

lemma scan_lines_bytes:
  "scan_lines rel_path fb sl rem fails lines pats n b syms = Some (n', syms', b', t)
   \<Longrightarrow> b \<le> rem \<Longrightarrow> 0 \<le> L \<Longrightarrow> \<forall>line\<in>set lines. int (length line) \<le> L
   \<Longrightarrow> b' \<le> rem + L"
proof (induction lines arbitrary: pats n b syms)
  case Nil
  then show ?case by (simp split: if_splits)
next
  case (Cons line lines)
  from Cons.prems(4) have len: "int (length line) \<le> L" and rest: "\<forall>l\<in>set lines. int (length l) \<le> L"
    by simp_all
  show ?case
  proof (cases "line_symbol pats rel_path (n + 1) line")
    case None
    with Cons.prems(1,2,3) len
      Cons.IH [of pats "n + 1" "b + int (length line)" syms, OF _ _ Cons.prems(3) rest]
    show ?thesis
      by (simp add: Let_def split: if_splits)
  next
    case (Some found)
    with Cons.prems(1,2,3) len
      Cons.IH [of "if MAX_SYMBOLS_PER_FILE \<le> length (syms @ [found]) then None else pats"
                  "n + 1" "b + int (length line)" "syms @ [found]", OF _ _ Cons.prems(3) rest]
    show ?thesis
      by (simp add: Let_def split: if_splits)
  qed
qed

lemma scan_file_bytes:
  assumes "scan_file rel_path f kb fb sl rem = (n, syms, b, t)"
    and "0 \<le> rem" and "0 \<le> L" and "\<forall>line\<in>set (flines f). int (length line) \<le> L"
  shows "b \<le> rem + L"
proof (cases "fsize f > kb * 1024")
  case True
  with assms show ?thesis by (simp add: scan_file_def)
next
  case False
  show ?thesis
  proof (cases "scan_lines rel_path fb sl rem (read_fails f) (flines f)
                  (map_of SYMBOL_PATTERNS (lower (splitext_ext rel_path))) 0 0 []")
    case None
    with False assms show ?thesis by (simp add: scan_file_def Let_def)
  next
    case (Some r)
    obtain n' syms' b' t' where r: "r = (n', syms', b', t')" by (cases r) auto
    from scan_lines_bytes [OF Some [unfolded r] assms(2) assms(3) assms(4)]
    have "b' \<le> rem + L" .
    with False Some r assms(1) show ?thesis by (simp add: scan_file_def Let_def)
  qed
qed

lemma total_bytes_collect_symbols [simp]:
  "total_bytes (collect_symbols a file_symbols st) = total_bytes st"
  by (simp add: collect_symbols_def Let_def)

lemma total_bytes_account_bytes [simp]:
  "total_bytes (account_bytes a b t st) = total_bytes st + b"
  by (simp add: account_bytes_def Let_def)

lemma scan_step_total_bytes:
  assumes "total_bytes st \<le> max 0 (max_total_bytes a) + L" and "0 \<le> L"
    and "\<forall>line\<in>set (flines (snd item)). int (length line) \<le> L"
  shows "total_bytes (scan_step a st item) \<le> max 0 (max_total_bytes a) + L"
proof (cases "stat_ok (snd item) \<and> should_scan (fst item) \<and> total_bytes st < max_total_bytes a")
  case False
  with assms(1) show ?thesis by (auto simp: scan_step_def Let_def)
next
  case True
  obtain n syms b t where
    r: "scan_file (fst item) (snd item) (max_file_kb a) (max_file_bytes a) (max_scan_lines a)
          (max_total_bytes a - total_bytes st) = (n, syms, b, t)"
    by (cases "scan_file (fst item) (snd item) (max_file_kb a) (max_file_bytes a) (max_scan_lines a)
          (max_total_bytes a - total_bytes st)") auto
  from True have "0 \<le> max_total_bytes a - total_bytes st" by simp
  from scan_file_bytes [OF r this assms(2) assms(3)]
  have "total_bytes st + b \<le> max_total_bytes a + L" by simp
  then have "total_bytes st + b \<le> max 0 (max_total_bytes a) + L" by simp
  with True r show ?thesis
    by (simp add: scan_step_def Let_def split: option.splits)
qed

lemma scan_all_total_bytes:
  "total_bytes st \<le> max 0 (max_total_bytes a) + L \<Longrightarrow> 0 \<le> L
   \<Longrightarrow> \<forall>item\<in>set files. \<forall>line\<in>set (flines (snd item)). int (length line) \<le> L
   \<Longrightarrow> total_bytes (scan_all a st files) \<le> max 0 (max_total_bytes a) + L"
proof (induction files arbitrary: st)
  case Nil
  then show ?case by (simp add: scan_all_def)
next
  case (Cons item files)
  from Cons.prems have "total_bytes (scan_step a st item) \<le> max 0 (max_total_bytes a) + L"
    by (intro scan_step_total_bytes) simp_all
  from Cons.IH [OF this] Cons.prems show ?case
    by (simp add: scan_all_def)
qed

lemma scan_step_exhausted:
  "total_bytes st \<ge> max_total_bytes a
   \<Longrightarrow> scan_step a st item = st\<lparr>file_infos := file_infos st @ infos_of [item]\<rparr>"
  by (simp add: scan_step_def Let_def infos_of_def)

lemma scan_all_exhausted:
  "total_bytes st \<ge> max_total_bytes a
   \<Longrightarrow> scan_all a st files = st\<lparr>file_infos := file_infos st @ infos_of files\<rparr>"
proof (induction files arbitrary: st)
  case Nil
  show ?case by (simp add: scan_all_def infos_of_def)
next
  case (Cons item files)
  have s: "scan_step a st item = st\<lparr>file_infos := file_infos st @ infos_of [item]\<rparr>"
    by (rule scan_step_exhausted [OF Cons.prems])
  have "total_bytes (scan_step a st item) \<ge> max_total_bytes a"
    using Cons.prems by (simp add: s)
  from Cons.IH [OF this] have
    "scan_all a (scan_step a st item) files
       = (scan_step a st item)\<lparr>file_infos := file_infos (scan_step a st item) @ infos_of files\<rparr>" .
  then show ?case
    by (simp add: scan_all_def s infos_of_def)
qed

text \<open>
  Claim C1, as stated, fails: \<^verbatim>\<open>scan_file\<close> adds the bytes of a line before it compares the
  count with the caps, so one line can carry a file past both caps by more than the
  per-file cap. With a per-file cap of 16 bytes and a total cap of 20 bytes, a file of one
  line of 39 bytes leaves the ledger at 39 bytes, more than 20 + 16.
\<close>

theorem budget_overrun_counterexample:
  "total_bytes (scan_all (default_args\<lparr>max_file_bytes := 16, max_total_bytes := 20\<rparr>) initial_ledger
      [(''app.min.js'', minified_js)]) = 39
   \<and> max_total_bytes (default_args\<lparr>max_file_bytes := 16, max_total_bytes := 20\<rparr>)
       + max_file_bytes (default_args\<lparr>max_file_bytes := 16, max_total_bytes := 20\<rparr>) = 36"
  by code_simp

text \<open>
  Claim C1, amended. For every run the bytes consumed are at most the total-byte cap (0
  when the cap is negative) plus the byte length of the longest line of a candidate file:
  the overrun is bounded by one line, not by the per-file byte cap. Once the running total
  has reached the total-byte cap no further file is scanned: the rest of the loop only
  appends to \<^verbatim>\<open>file_infos\<close>.
\<close>

theorem budget_bounded_overrun:
  "total_bytes (scan_all a initial_ledger files) \<le> max 0 (max_total_bytes a) + longest_line files
   \<and> (total_bytes st \<ge> max_total_bytes a
       \<longrightarrow> scan_all a st later = st\<lparr>file_infos := file_infos st @ infos_of later\<rparr>)"
proof -
  have "total_bytes initial_ledger \<le> max 0 (max_total_bytes a) + longest_line files"
    using longest_line_nonneg [of files] by (simp add: initial_ledger_def)
  then have "total_bytes (scan_all a initial_ledger files)
      \<le> max 0 (max_total_bytes a) + longest_line files"
    by (rule scan_all_total_bytes) (auto simp: longest_line_nonneg longest_line_bound)
  then show ?thesis
    by (simp add: scan_all_exhausted)
qed

theorem budget_bounded_overrun_witness:
  "total_bytes (scan_all (default_args\<lparr>max_file_bytes := 16, max_total_bytes := 20\<rparr>) initial_ledger
      [(''app.min.js'', minified_js), (''b.js'', minified_js)]) \<le> 20 + 39
   \<and> longest_line [(''app.min.js'', minified_js), (''b.js'', minified_js)] = 39
   \<and> total_bytes (scan_all (default_args\<lparr>max_file_bytes := 16, max_total_bytes := 20\<rparr>) initial_ledger
      [(''app.min.js'', minified_js)]) \<ge> 20
   \<and> scan_all (default_args\<lparr>max_file_bytes := 16, max_total_bytes := 20\<rparr>)
        (scan_all (default_args\<lparr>max_file_bytes := 16, max_total_bytes := 20\<rparr>) initial_ledger
           [(''app.min.js'', minified_js)])
        [(''b.js'', minified_js)]
      = (scan_all (default_args\<lparr>max_file_bytes := 16, max_total_bytes := 20\<rparr>) initial_ledger
           [(''app.min.js'', minified_js)])
        \<lparr>file_infos := [(''app.min.js'', 39, 0), (''b.js'', 39, 0)]\<rparr>"
proof -
  let ?a = "default_args\<lparr>max_file_bytes := 16, max_total_bytes := 20\<rparr>"
  let ?st = "scan_all ?a initial_ledger [(''app.min.js'', minified_js)]"
  have cap: "max_total_bytes ?a = 20" by (simp add: default_args_def)
  have l: "longest_line [(''app.min.js'', minified_js), (''b.js'', minified_js)] = 39"
    by code_simp
  have h: "total_bytes ?st \<ge> max_total_bytes ?a"
    by code_simp
  have i: "file_infos ?st @ infos_of [(''b.js'', minified_js)]
           = [(''app.min.js'', 39, 0), (''b.js'', 39, 0)]"
    by code_simp
  from budget_bounded_overrun [of ?a "[(''app.min.js'', minified_js), (''b.js'', minified_js)]"
         ?st "[(''b.js'', minified_js)]"] h
  have "total_bytes (scan_all ?a initial_ledger [(''app.min.js'', minified_js), (''b.js'', minified_js)])
          \<le> max 0 (max_total_bytes ?a)
             + longest_line [(''app.min.js'', minified_js), (''b.js'', minified_js)]"
    and "scan_all ?a ?st [(''b.js'', minified_js)]
          = ?st\<lparr>file_infos := file_infos ?st @ infos_of [(''b.js'', minified_js)]\<rparr>"
    by blast+
  with l h i cap show ?thesis by simp
qed

subsection \<open>Budget ledger: symbols\<close>

lemma slice_to_length_le: "length (slice_to n xs) \<le> length xs"
  by (simp add: slice_to_def)

lemma slice_to_length_cap: "0 \<le> n \<Longrightarrow> int (length (slice_to n xs)) \<le> n"
  by (simp add: slice_to_def)

lemma slice_to_all: "0 \<le> n \<Longrightarrow> int (length (slice_to n xs)) < n \<Longrightarrow> slice_to n xs = xs"
  by (simp add: slice_to_def min_def split: if_splits)

lemma collect_symbols_flag:
  "symbols_truncated st \<Longrightarrow> symbols_truncated (collect_symbols a fs st)"
  by (simp add: collect_symbols_def)

lemma collect_symbols_length:
  "int (length (symbols st)) \<le> max 0 (max_symbols a)
   \<Longrightarrow> int (length (symbols (collect_symbols a fs st))) \<le> max 0 (max_symbols a)"
  using slice_to_length_cap [of "max_symbols a - int (length (symbols st))" fs]
  by (auto simp: collect_symbols_def Let_def)

lemma collect_symbols_all:
  assumes "\<not> symbols_truncated (collect_symbols a fs st)"
  shows "symbols (collect_symbols a fs st) = symbols st @ fs
         \<and> (fs = [] \<or> int (length (symbols st @ fs)) < max_symbols a)"
proof (cases "\<not> symbols_truncated st \<and> fs \<noteq> []")
  case False
  with assms show ?thesis by (auto simp: collect_symbols_def)
next
  case True
  let ?r = "max_symbols a - int (length (symbols st))"
  from True assms have pos: "0 < ?r"
    by (auto simp: collect_symbols_def Let_def split: if_splits)
  from True assms pos have lt: "int (length (symbols st @ slice_to ?r fs)) < max_symbols a"
    by (auto simp: collect_symbols_def Let_def split: if_splits)
  then have "int (length (slice_to ?r fs)) < ?r" by simp
  with pos have "slice_to ?r fs = fs" by (intro slice_to_all) simp_all
  with True assms pos lt show ?thesis
    by (auto simp: collect_symbols_def Let_def split: if_splits)
qed

lemma symbols_account_bytes [simp]:
  "symbols (account_bytes a b t st) = symbols st"
  "symbols_truncated (account_bytes a b t st) = symbols_truncated st"
  by (simp_all add: account_bytes_def Let_def)

text \<open>The ledger that \<^verbatim>\<open>collect_symbols\<close> receives in an iteration that scans.\<close>

lemma scan_step_scanning:
  assumes "stat_ok (snd item) \<and> should_scan (fst item) \<and> total_bytes st < max_total_bytes a"
  shows "\<exists>st'. symbols st' = symbols st \<and> symbols_truncated st' = symbols_truncated st
           \<and> scan_step a st item = collect_symbols a (step_batch a st item) st'"
proof -
  obtain n syms b t where
    r: "scan_file (fst item) (snd item) (max_file_kb a) (max_file_bytes a) (max_scan_lines a)
          (max_total_bytes a - total_bytes st) = (n, syms, b, t)"
    by (cases "scan_file (fst item) (snd item) (max_file_kb a) (max_file_bytes a) (max_scan_lines a)
          (max_total_bytes a - total_bytes st)") auto
  let ?st1 = "account_bytes a b t (st\<lparr>file_infos := file_infos st @ [(fst item, fsize (snd item), fmtime (snd item))]\<rparr>)"
  let ?st2 = "case n of None \<Rightarrow> ?st1 | Some k \<Rightarrow> ?st1\<lparr>line_counts := dict_set (line_counts ?st1) (fst item) k\<rparr>"
  have "symbols ?st2 = symbols st \<and> symbols_truncated ?st2 = symbols_truncated st"
    by (cases n) simp_all
  moreover have "scan_step a st item = collect_symbols a (step_batch a st item) ?st2"
    using assms r by (simp add: scan_step_def step_batch_def Let_def)
  ultimately show ?thesis by blast
qed

lemma scan_step_idle:
  assumes "\<not> (stat_ok (snd item) \<and> should_scan (fst item) \<and> total_bytes st < max_total_bytes a)"
  shows "symbols (scan_step a st item) = symbols st"
    and "symbols_truncated (scan_step a st item) = symbols_truncated st"
    and "step_batch a st item = []"
  using assms by (auto simp: scan_step_def step_batch_def Let_def)

lemma scan_step_flag:
  "symbols_truncated st \<Longrightarrow> symbols_truncated (scan_step a st item)"
proof (cases "stat_ok (snd item) \<and> should_scan (fst item) \<and> total_bytes st < max_total_bytes a")
  case True
  assume t: "symbols_truncated st"
  from scan_step_scanning [OF True] obtain st' where
    "symbols_truncated st' = symbols_truncated st"
    "scan_step a st item = collect_symbols a (step_batch a st item) st'" by blast
  with t show ?thesis by (simp add: collect_symbols_flag)
next
  case False
  assume "symbols_truncated st"
  with scan_step_idle(2) [OF False] show ?thesis by simp
qed

lemma scan_step_length:
  assumes "int (length (symbols st)) \<le> max 0 (max_symbols a)"
  shows "int (length (symbols (scan_step a st item))) \<le> max 0 (max_symbols a)"
proof (cases "stat_ok (snd item) \<and> should_scan (fst item) \<and> total_bytes st < max_total_bytes a")
  case True
  from scan_step_scanning [OF True] obtain st' where
    s: "symbols st' = symbols st"
    "scan_step a st item = collect_symbols a (step_batch a st item) st'" by blast
  from assms s(1) have "int (length (symbols st')) \<le> max 0 (max_symbols a)" by simp
  from collect_symbols_length [OF this] s(2) show ?thesis by simp
next
  case False
  with assms scan_step_idle(1) [OF False] show ?thesis by simp
qed

lemma scan_step_all:
  assumes "\<not> symbols_truncated (scan_step a st item)"
  shows "symbols (scan_step a st item) = symbols st @ step_batch a st item
         \<and> (step_batch a st item = []
            \<or> int (length (symbols (scan_step a st item))) < max_symbols a)"
proof (cases "stat_ok (snd item) \<and> should_scan (fst item) \<and> total_bytes st < max_total_bytes a")
  case True
  from scan_step_scanning [OF True] obtain st' where
    s: "symbols st' = symbols st"
    "scan_step a st item = collect_symbols a (step_batch a st item) st'" by blast
  from assms s(2) have "\<not> symbols_truncated (collect_symbols a (step_batch a st item) st')"
    by simp
  from collect_symbols_all [OF this] s show ?thesis by simp
next
  case False
  from scan_step_idle [OF False] show ?thesis by simp
qed

lemma scan_all_flag:
  "symbols_truncated st \<Longrightarrow> symbols_truncated (scan_all a st files)"
  by (induction files arbitrary: st) (simp_all add: scan_all_def scan_step_flag)

lemma scan_all_length:
  "int (length (symbols st)) \<le> max 0 (max_symbols a)
   \<Longrightarrow> int (length (symbols (scan_all a st files))) \<le> max 0 (max_symbols a)"
  by (induction files arbitrary: st) (simp_all add: scan_all_def scan_step_length)

lemma scan_all_all:
  "\<not> symbols_truncated (scan_all a st files)
   \<Longrightarrow> length (symbols (scan_all a st files))
         = length (symbols st) + sum_list (map length (scan_batches a st files))
       \<and> (sum_list (map length (scan_batches a st files)) = 0
          \<or> int (length (symbols (scan_all a st files))) < max_symbols a)"
proof (induction files arbitrary: st)
  case Nil
  show ?case by (simp add: scan_all_def)
next
  case (Cons item files)
  define st1 where "st1 = scan_step a st item"
  define b where "b = length (step_batch a st item)"
  define e where "e = sum_list (map length (scan_batches a st1 files))"
  define n where "n = length (symbols (scan_all a st1 files))"
  from Cons.prems have fin: "\<not> symbols_truncated (scan_all a st1 files)"
    by (simp add: scan_all_def st1_def)
  then have "\<not> symbols_truncated st1"
    using scan_all_flag [of st1 a files] by blast
  from scan_step_all [OF this [unfolded st1_def]] have
    step: "length (symbols st1) = length (symbols st) + b"
      "b = 0 \<or> int (length (symbols st1)) < max_symbols a"
    by (auto simp: st1_def b_def)
  from Cons.IH [OF fin] have
    ih: "n = length (symbols st1) + e" "e = 0 \<or> int n < max_symbols a"
    unfolding n_def e_def by blast+
  have eq: "scan_all a st (item # files) = scan_all a st1 files"
    by (simp add: scan_all_def st1_def)
  have total: "sum_list (map length (scan_batches a st (item # files))) = b + e"
    by (simp add: b_def e_def st1_def)
  have "n = length (symbols st) + (b + e)"
    using step(1) ih(1) by simp
  moreover have "b + e = 0 \<or> int n < max_symbols a"
    using step ih by (cases "e = 0") auto
  ultimately show ?case
    unfolding eq total n_def by blast
qed

text \<open>
  Claim C7, as stated, fails in its second half: the marker follows the symbols that the
  scans return, not the symbols in the tree. With every cap at its default, a single
  Python file of 201 function definitions holds more symbols than \<^verbatim>\<open>max_symbols\<close> = 200,
  but \<^verbatim>\<open>scan_file\<close> returns 25 of them (the per-file cap), the report lists 25, and the
  notes hold no marker.
\<close>

theorem symbols_note_counterexample:
  "true_symbol_count [(''big.py'', big_py)] = 201
   \<and> max_symbols default_args = 200
   \<and> map_sum id rep_notes (main default_args ''abc'' (Dir [(''big.py'', File big_py)])) = Inr []
   \<and> map_sum id (length \<circ> rep_symbols)
        (main default_args ''abc'' (Dir [(''big.py'', File big_py)])) = Inr 25"
  by code_simp

text \<open>
  Claim C7, amended. The symbols list of the report never holds more than \<^verbatim>\<open>max_symbols\<close>
  entries (none when the cap is not positive), for the report assembled from any
  candidate list and so for every run of \<^verbatim>\<open>main\<close>. Whenever the number of symbols that the
  per-file scans of the run return exceeds \<^verbatim>\<open>max_symbols\<close> (taken as 0 when negative), the
  notes hold the marker \<^verbatim>\<open>symbols truncated\<close>.
\<close>

theorem symbol_cap_and_note:
  "length (rep_symbols (assemble a git_head flt root files_truncated files)) \<le> nat (max_symbols a)
   \<and> (int (emitted_symbol_count a files) > max 0 (max_symbols a)
       \<longrightarrow> ''symbols truncated''
             \<in> set (rep_notes (assemble a git_head flt root files_truncated files)))
   \<and> (case main a git_head repo of
         Inl e \<Rightarrow> True
       | Inr r \<Rightarrow> length (rep_symbols r) \<le> nat (max_symbols a))"
proof -
  let ?st = "scan_all a initial_ledger files"
  have len: "int (length (symbols (scan_all a initial_ledger fs))) \<le> max 0 (max_symbols a)" for fs
    by (rule scan_all_length) (simp add: initial_ledger_def)
  have cap: "length (rep_symbols (assemble a g fl rt ft fs)) \<le> nat (max_symbols a)" for g fl rt ft fs
  proof -
    have "length (rep_symbols (assemble a g fl rt ft fs))
            \<le> length (symbols (scan_all a initial_ledger fs))"
      using slice_to_length_le
        [of "max_symbols a" "sort_key (\<lambda>s. (sym_path s, sym_line s, sym_name s))
                               (symbols (scan_all a initial_ledger fs))"]
      by (simp add: assemble_def Let_def split: prod.splits)
    with len [of fs] show ?thesis by simp
  qed
  have marker: "''symbols truncated''
             \<in> set (rep_notes (assemble a git_head flt root files_truncated files))"
    if over: "int (emitted_symbol_count a files) > max 0 (max_symbols a)"
  proof -
    have "symbols_truncated ?st"
    proof (rule ccontr)
      assume "\<not> symbols_truncated ?st"
      from scan_all_all [OF this]
      have l: "length (symbols ?st)
                 = length (symbols initial_ledger) + emitted_symbol_count a files"
        and d: "emitted_symbol_count a files = 0 \<or> int (length (symbols ?st)) < max_symbols a"
        unfolding emitted_symbol_count_def by blast+
      have "symbols initial_ledger = []" by (simp add: initial_ledger_def)
      with l have "length (symbols ?st) = emitted_symbol_count a files" by simp
      with d over show False by linarith
    qed
    then show ?thesis
      by (simp add: assemble_def Let_def notes_of_def split: prod.splits)
  qed
  have m: "(case main a git_head repo of
         Inl e \<Rightarrow> True
       | Inr r \<Rightarrow> length (rep_symbols r) \<le> nat (max_symbols a))"
    by (cases repo) (simp_all add: main_def Let_def cap split: prod.splits)
  from cap marker m show ?thesis by blast
qed

theorem symbol_cap_and_note_witness:
  "length (rep_symbols (assemble (default_args\<lparr>max_symbols := 20\<rparr>) ''abc'' default_filter
             [(''big.py'', File big_py)] False [(''big.py'', big_py)])) \<le> 20
   \<and> emitted_symbol_count (default_args\<lparr>max_symbols := 20\<rparr>) [(''big.py'', big_py)] = 25
   \<and> ''symbols truncated''
        \<in> set (rep_notes (assemble (default_args\<lparr>max_symbols := 20\<rparr>) ''abc'' default_filter
                   [(''big.py'', File big_py)] False [(''big.py'', big_py)]))"
proof -
  let ?a = "default_args\<lparr>max_symbols := 20\<rparr>"
  have e: "emitted_symbol_count ?a [(''big.py'', big_py)] = 25"
    by code_simp
  have m: "max_symbols ?a = 20" by (simp add: default_args_def)
  have h: "int (emitted_symbol_count ?a [(''big.py'', big_py)]) > max 0 (max_symbols ?a)"
    by (simp add: e m)
  from symbol_cap_and_note [of ?a "''abc''" default_filter "[(''big.py'', File big_py)]" False
         "[(''big.py'', big_py)]"] h e m
  show ?thesis by simp
qed

subsection \<open>Scan scheduler: grouping\<close>

lemma setdefault_append_keys:
  "map fst (setdefault_append grouped key item)
   = (if key \<in> set (map fst grouped) then map fst grouped else map fst grouped @ [key])"
  by (induction grouped key item rule: setdefault_append.induct) auto

lemma setdefault_append_lookup:
  "lookup (setdefault_append grouped key item) k
   = (if k = key then lookup grouped k @ [item] else lookup grouped k)"
  by (induction grouped key item rule: setdefault_append.induct) (auto simp: lookup_def)

lemma foldl_group_keys:
  "set (map fst (foldl (\<lambda>grouped item. setdefault_append grouped (group_key (fst item)) item) g files))
   = set (map fst g) \<union> (\<lambda>item. group_key (fst item)) ` set files"
proof (induction files arbitrary: g)
  case Nil
  show ?case by simp
next
  case (Cons item files)
  show ?case
    unfolding foldl_Cons Cons.IH setdefault_append_keys by auto
qed

lemma foldl_group_distinct:
  "distinct (map fst g)
   \<Longrightarrow> distinct (map fst (foldl (\<lambda>grouped item. setdefault_append grouped (group_key (fst item)) item) g files))"
proof (induction files arbitrary: g)
  case Nil
  then show ?case by simp
next
  case (Cons item files)
  have "distinct (map fst (setdefault_append g (group_key (fst item)) item))"
    using Cons.prems unfolding setdefault_append_keys by simp
  from Cons.IH [OF this] show ?case by simp
qed

lemma foldl_group_lookup:
  "lookup (foldl (\<lambda>grouped item. setdefault_append grouped (group_key (fst item)) item) g files) k
   = lookup g k @ filter (in_group k) files"
proof (induction files arbitrary: g)
  case Nil
  show ?case by simp
next
  case (Cons item files)
  show ?case
    unfolding foldl_Cons Cons.IH setdefault_append_lookup
    by (simp add: in_group_def [abs_def])
qed

lemma group_files_keys:
  "set (map fst (group_files files)) = (\<lambda>item. group_key (fst item)) ` set files"
  "distinct (map fst (group_files files))"
  unfolding group_files_def using foldl_group_keys [of "[]" files] foldl_group_distinct [of "[]" files]
  by simp_all

lemma group_files_lookup: "lookup (group_files files) k = filter (in_group k) files"
  unfolding group_files_def using foldl_group_lookup [of "[]" files k] by (simp add: lookup_def)

lemma lookup_sorted_groups:
  "lookup (map (\<lambda>(k, items). (k, sort_key scan_key items)) grouped) k
   = sort_key scan_key (lookup grouped k)"
  by (induction grouped) (auto simp: lookup_def)

lemma reorder_unfold:
  "reorder_files_for_scan files
   = round_robin (group_members files) (sort (map fst (group_files files))) (\<lambda>k. 0) []"
proof -
  have "lookup (map (\<lambda>(k, items). (k, sort_key scan_key items)) (group_files files))
        = group_members files"
    by (rule ext) (simp add: lookup_sorted_groups group_files_lookup group_members_def)
  then show ?thesis
    by (simp add: reorder_files_for_scan_def Let_def)
qed


subsection \<open>Scan scheduler: the round-robin loop\<close>

lemma layer_cong:
  "(\<And>k. k \<in> set keys \<Longrightarrow> indices k = indices' k)
   \<Longrightarrow> layer grouped keys indices r = layer grouped keys indices' r"
  unfolding layer_def by (induction keys) auto

lemma round_robin_pass_result:
  "round_robin_pass grouped keys indices ordered progressed = (indices', ordered', progressed')
   \<Longrightarrow> distinct keys
   \<Longrightarrow> (\<forall>k. indices' k
            = (if k \<in> set keys \<and> indices k < length (grouped k) then indices k + 1 else indices k))
       \<and> ordered' = ordered @ layer grouped keys indices 0
       \<and> progressed' = (progressed \<or> layer grouped keys indices 0 \<noteq> [])"
proof (induction keys arbitrary: indices ordered progressed)
  case Nil
  then show ?case by (simp add: layer_def)
next
  case (Cons a keys)
  from Cons.prems(2) have a: "a \<notin> set keys" and d: "distinct keys" by simp_all
  show ?case
  proof (cases "indices a \<ge> length (grouped a)")
    case True
    with Cons.prems(1) have
      "round_robin_pass grouped keys indices ordered progressed = (indices', ordered', progressed')"
      by simp
    from Cons.IH [OF this d] True show ?thesis
      by (auto simp: layer_def)
  next
    case False
    define i where "i = indices(a := indices a + 1)"
    from False Cons.prems(1) have
      "round_robin_pass grouped keys i (ordered @ [grouped a ! indices a]) True
         = (indices', ordered', progressed')"
      by (simp add: Let_def i_def)
    from Cons.IH [OF this d] have
      ih: "\<forall>k. indices' k = (if k \<in> set keys \<and> i k < length (grouped k) then i k + 1 else i k)"
        "ordered' = (ordered @ [grouped a ! indices a]) @ layer grouped keys i 0"
        "progressed' = True"
      by blast+
    have same: "layer grouped keys i 0 = layer grouped keys indices 0"
      by (rule layer_cong) (use a in \<open>auto simp: i_def\<close>)
    have first: "layer grouped (a # keys) indices 0 = grouped a ! indices a # layer grouped keys indices 0"
      using False by (simp add: layer_def)
    have idx: "indices' k
            = (if k \<in> set (a # keys) \<and> indices k < length (grouped k) then indices k + 1 else indices k)"
      for k
      using ih(1) a False by (cases "k = a") (auto simp: i_def)
    from idx ih(2,3) same first show ?thesis by simp
  qed
qed

lemma layer_shift:
  assumes "\<forall>k. indices' k
            = (if k \<in> set keys \<and> indices k < length (grouped k) then indices k + 1 else indices k)"
  shows "layer grouped keys indices' r = layer grouped keys indices (Suc r)"
proof -
  have "map (\<lambda>k. grouped k ! (indices' k + r)) (filter (\<lambda>k. indices' k + r < length (grouped k)) ks)
        = map (\<lambda>k. grouped k ! (indices k + Suc r))
            (filter (\<lambda>k. indices k + Suc r < length (grouped k)) ks)"
    if "set ks \<subseteq> set keys" for ks
    using that
  proof (induction ks)
    case Nil
    show ?case by simp
  next
    case (Cons k ks)
    then have k: "k \<in> set keys" and ks: "set ks \<subseteq> set keys" by simp_all
    from assms k have
      "indices' k = (if indices k < length (grouped k) then indices k + 1 else indices k)"
      by simp
    with Cons.IH [OF ks] show ?case by auto
  qed
  from this [of keys] show ?thesis by (simp add: layer_def)
qed

lemma layer_exhausted:
  "layer grouped keys indices 0 = [] \<Longrightarrow> layer grouped keys indices r = []"
  unfolding layer_def by (induction keys) (auto split: if_splits)

lemma concat_upt_Suc:
  "concat (map f [0..<Suc m]) = f 0 @ concat (map (\<lambda>r. f (Suc r)) [0..<m])"
proof -
  have "[0..<Suc m] = 0 # map Suc [0..<m]"
    by (simp only: map_Suc_upt upt_conv_Cons [of 0 "Suc m"] zero_less_Suc)
  then show ?thesis
    by (simp only: list.map concat.simps map_map comp_def)
qed

lemma round_robin_layers:
  "distinct keys \<Longrightarrow> \<forall>k\<in>set keys. length (grouped k) \<le> indices k + n
   \<Longrightarrow> round_robin grouped keys indices ordered
       = ordered @ concat (map (layer grouped keys indices) [0..<n])"
proof (induction grouped keys indices ordered arbitrary: n rule: round_robin.induct)
  case (1 grouped keys indices ordered)
  obtain indices' ordered' progressed where
    p: "round_robin_pass grouped keys indices ordered False = (indices', ordered', progressed)"
    by (cases "round_robin_pass grouped keys indices ordered False") auto
  from round_robin_pass_result [OF p "1.prems"(1)] have
    idx: "\<forall>k. indices' k
            = (if k \<in> set keys \<and> indices k < length (grouped k) then indices k + 1 else indices k)"
    and ord: "ordered' = ordered @ layer grouped keys indices 0"
    and prog: "progressed = (layer grouped keys indices 0 \<noteq> [])"
    by simp_all
  show ?case
  proof (cases progressed)
    case False
    with prog have "layer grouped keys indices 0 = []" by simp
    then have "layer grouped keys indices r = []" for r by (rule layer_exhausted)
    then have "concat (map (layer grouped keys indices) [0..<n]) = []" by simp
    with False p ord prog show ?thesis
      by (subst round_robin.simps) simp
  next
    case True
    with prog obtain k where k: "k \<in> set keys" "indices k < length (grouped k)"
      by (auto simp: layer_def filter_empty_conv)
    with "1.prems"(2) have "n \<noteq> 0" by fastforce
    then obtain m where n: "n = Suc m" by (cases n) auto
    have rem: "\<forall>k\<in>set keys. length (grouped k) \<le> indices' k + m"
      using "1.prems"(2) idx n by auto
    have nn: "\<not> \<not> progressed" using True by simp
    have "round_robin grouped keys indices' ordered'
          = ordered' @ concat (map (layer grouped keys indices') [0..<m])"
      by (rule "1.IH" [OF p [symmetric] refl nn "1.prems"(1) rem])
    also have "map (layer grouped keys indices') [0..<m]
               = map (\<lambda>r. layer grouped keys indices (Suc r)) [0..<m]"
      using layer_shift [OF idx] by simp
    also have "ordered' @ concat (map (\<lambda>r. layer grouped keys indices (Suc r)) [0..<m])
               = ordered @ concat (map (layer grouped keys indices) [0..<Suc m])"
      unfolding ord
      by (simp only: concat_upt_Suc append_assoc)
    finally have "round_robin grouped keys indices' ordered'
          = ordered @ concat (map (layer grouped keys indices) [0..<n])"
      unfolding n .
    with True p show ?thesis
      by (subst round_robin.simps) simp
  qed
qed


lemma scheduler_keys: "sort (map fst (group_files files)) = group_keys files"
proof (rule sorted_distinct_set_unique)
  show "sorted (sort (map fst (group_files files)))" by simp
  show "distinct (sort (map fst (group_files files)))"
    using group_files_keys(2) [of files] by simp
  show "sorted (group_keys files)" by (simp add: group_keys_def)
  show "distinct (group_keys files)" by (simp add: group_keys_def)
  show "set (sort (map fst (group_files files))) = set (group_keys files)"
    using group_files_keys(1) [of files] by (simp add: group_keys_def)
qed

lemma group_keys_props:
  "sorted (group_keys files)" "distinct (group_keys files)"
  "set (group_keys files) = (\<lambda>item. group_key (fst item)) ` set files"
  by (simp_all add: group_keys_def)

lemma group_members_length: "length (group_members files k) \<le> length files"
  by (simp add: group_members_def)

lemma reorder_is_fair_schedule: "reorder_files_for_scan files = fair_schedule files"
proof -
  have rem: "\<forall>k\<in>set (group_keys files). length (group_members files k) \<le> (\<lambda>k. 0) k + length files"
    by (simp add: group_members_length)
  have l: "layer (group_members files) (group_keys files) (\<lambda>k. 0) = fair_round files"
    by (rule ext) (simp add: layer_def fair_round_def)
  show ?thesis
    unfolding reorder_unfold scheduler_keys fair_schedule_def
      round_robin_layers [OF group_keys_props(2) rem]
    by (simp add: l)
qed

lemma group_member_nonempty:
  "k \<in> set (group_keys files) \<Longrightarrow> 0 < length (group_members files k)"
proof -
  assume "k \<in> set (group_keys files)"
  then obtain item where "item \<in> set files" "group_key (fst item) = k"
    by (auto simp: group_keys_def)
  then have "\<exists>x\<in>set files. in_group k x" by (auto simp: in_group_def)
  then have "filter (in_group k) files \<noteq> []" by (simp only: filter_empty_conv) blast
  then show ?thesis by (simp add: group_members_def)
qed

lemma first_round:
  "take (length (group_keys files)) (fair_schedule files)
   = map (\<lambda>k. group_members files k ! 0) (group_keys files)"
proof (cases files)
  case Nil
  then show ?thesis by (simp add: fair_schedule_def group_keys_def)
next
  case (Cons item rest)
  then obtain m where m: "length files = Suc m" by simp
  have all: "filter (\<lambda>k. 0 < length (group_members files k)) (group_keys files) = group_keys files"
    using group_member_nonempty [of _ files] by (intro filter_True) blast
  have r0: "fair_round files 0 = map (\<lambda>k. group_members files k ! 0) (group_keys files)"
    by (simp only: fair_round_def all)
  have "fair_schedule files = fair_round files 0 @ concat (map (\<lambda>r. fair_round files (Suc r)) [0..<m])"
    unfolding fair_schedule_def m by (rule concat_upt_Suc)
  then show ?thesis by (simp add: r0)
qed


subsection \<open>Scan scheduler: nothing dropped, nothing duplicated\<close>

lemma pass_mset:
  assumes "\<forall>k. indices' k
            = (if k \<in> set keys \<and> indices k < length (grouped k) then indices k + 1 else indices k)"
  shows "(\<Sum>k\<leftarrow>keys. mset (drop (indices k) (grouped k)))
         = mset (layer grouped keys indices 0) + (\<Sum>k\<leftarrow>keys. mset (drop (indices' k) (grouped k)))"
proof -
  have "(\<Sum>k\<leftarrow>ks. mset (drop (indices k) (grouped k)))
         = mset (layer grouped ks indices 0) + (\<Sum>k\<leftarrow>ks. mset (drop (indices' k) (grouped k)))"
    if "set ks \<subseteq> set keys" for ks
    using that
  proof (induction ks)
    case Nil
    show ?case by (simp add: layer_def)
  next
    case (Cons k ks)
    then have k: "k \<in> set keys" and ks: "set ks \<subseteq> set keys" by simp_all
    show ?case
    proof (cases "indices k < length (grouped k)")
      case True
      with assms k have i: "indices' k = Suc (indices k)" by simp
      have "drop (indices k) (grouped k) = grouped k ! indices k # drop (indices' k) (grouped k)"
        unfolding i using True by (simp add: Cons_nth_drop_Suc)
      moreover have "layer grouped (k # ks) indices 0 = grouped k ! indices k # layer grouped ks indices 0"
        using True by (simp add: layer_def)
      ultimately show ?thesis using Cons.IH [OF ks] by simp
    next
      case False
      with assms k have i: "indices' k = indices k" by simp
      have "layer grouped (k # ks) indices 0 = layer grouped ks indices 0"
        using False by (simp add: layer_def)
      with i False Cons.IH [OF ks] show ?thesis by simp
    qed
  qed
  from this [of keys] show ?thesis by simp
qed

lemma exhausted_mset:
  "layer grouped keys indices 0 = [] \<Longrightarrow> (\<Sum>k\<leftarrow>keys. mset (drop (indices k) (grouped k))) = {#}"
  unfolding layer_def by (induction keys) (auto split: if_splits)

lemma round_robin_mset:
  "distinct keys
   \<Longrightarrow> mset (round_robin grouped keys indices ordered)
       = mset ordered + (\<Sum>k\<leftarrow>keys. mset (drop (indices k) (grouped k)))"
proof (induction grouped keys indices ordered rule: round_robin.induct)
  case (1 grouped keys indices ordered)
  obtain indices' ordered' progressed where
    p: "round_robin_pass grouped keys indices ordered False = (indices', ordered', progressed)"
    by (cases "round_robin_pass grouped keys indices ordered False") auto
  from round_robin_pass_result [OF p "1.prems"] have
    idx: "\<forall>k. indices' k
            = (if k \<in> set keys \<and> indices k < length (grouped k) then indices k + 1 else indices k)"
    and ord: "ordered' = ordered @ layer grouped keys indices 0"
    and prog: "progressed = (layer grouped keys indices 0 \<noteq> [])"
    by simp_all
  show ?case
  proof (cases progressed)
    case False
    with prog have e: "layer grouped keys indices 0 = []" by simp
    have "round_robin grouped keys indices ordered = ordered'"
      using False p by (subst round_robin.simps) simp
    with ord e exhausted_mset [OF e] show ?thesis by simp
  next
    case True
    then have nn: "\<not> \<not> progressed" by simp
    have "round_robin grouped keys indices ordered = round_robin grouped keys indices' ordered'"
      using True p by (subst round_robin.simps) simp
    also have "mset \<dots> = mset ordered' + (\<Sum>k\<leftarrow>keys. mset (drop (indices' k) (grouped k)))"
      by (rule "1.IH" [OF p [symmetric] refl nn "1.prems"])
    also have "\<dots> = mset ordered + (\<Sum>k\<leftarrow>keys. mset (drop (indices k) (grouped k)))"
      unfolding ord pass_mset [OF idx] by simp
    finally show ?thesis .
  qed
qed

lemma sum_single_group:
  "distinct keys \<Longrightarrow> c \<in> set keys
   \<Longrightarrow> (\<Sum>k\<leftarrow>keys. if c = k then A else ({#} :: 'a multiset)) = A"
proof (induction keys)
  case Nil
  then show ?case by simp
next
  case (Cons k keys)
  show ?case
  proof (cases "c = k")
    case True
    with Cons.prems have "c \<notin> set keys" by simp
    then have "(\<Sum>j\<leftarrow>keys. if c = j then A else {#}) = {#}"
      by (induction keys) auto
    with True show ?thesis by simp
  next
    case False
    with Cons show ?thesis by simp
  qed
qed

lemma sum_groups:
  "distinct keys \<Longrightarrow> (\<lambda>item. group_key (fst item)) ` set files \<subseteq> set keys
   \<Longrightarrow> (\<Sum>k\<leftarrow>keys. mset (filter (in_group k) files)) = mset files"
proof (induction files)
  case Nil
  show ?case by (induction keys) simp_all
next
  case (Cons item files)
  from Cons.prems have c: "group_key (fst item) \<in> set keys"
    and rest: "(\<lambda>item. group_key (fst item)) ` set files \<subseteq> set keys" by simp_all
  have "(\<Sum>k\<leftarrow>keys. mset (filter (in_group k) (item # files)))
        = (\<Sum>k\<leftarrow>keys. (if group_key (fst item) = k then {#item#} else {#})
                        + mset (filter (in_group k) files))"
    by (rule arg_cong [where f = sum_list]) (simp add: in_group_def)
  also have "\<dots> = (\<Sum>k\<leftarrow>keys. if group_key (fst item) = k then {#item#} else {#})
                  + (\<Sum>k\<leftarrow>keys. mset (filter (in_group k) files))"
    by (rule sum_list_addf)
  also have "\<dots> = {#item#} + mset files"
    unfolding sum_single_group [OF Cons.prems(1) c] Cons.IH [OF Cons.prems(1) rest] ..
  finally show ?case by simp
qed

lemma reorder_mset: "mset (reorder_files_for_scan files) = mset files"
proof -
  have "mset (reorder_files_for_scan files)
        = (\<Sum>k\<leftarrow>group_keys files. mset (group_members files k))"
    unfolding reorder_unfold scheduler_keys round_robin_mset [OF group_keys_props(2)] by simp
  also have "\<dots> = (\<Sum>k\<leftarrow>group_keys files. mset (filter (in_group k) files))"
    by (simp add: group_members_def)
  also have "\<dots> = mset files"
    by (rule sum_groups) (simp_all add: group_keys_props)
  finally show ?thesis .
qed


subsection \<open>Scan scheduler: the order inside a group\<close>

lemma layer_filter:
  "distinct ks \<Longrightarrow> \<forall>j\<in>set ks. \<forall>x\<in>set (grouped j). in_group j x
   \<Longrightarrow> filter (in_group k) (layer grouped ks indices 0)
       = (if k \<in> set ks \<and> indices k < length (grouped k) then [grouped k ! indices k] else [])"
proof (induction ks)
  case Nil
  show ?case by (simp add: layer_def)
next
  case (Cons j ks)
  from Cons.prems have d: "distinct ks" and j: "j \<notin> set ks"
    and lab: "\<forall>i\<in>set ks. \<forall>x\<in>set (grouped i). in_group i x"
    and labj: "\<forall>x\<in>set (grouped j). in_group j x" by simp_all
  note ih = Cons.IH [OF d lab]
  show ?case
  proof (cases "indices j < length (grouped j)")
    case False
    then have "layer grouped (j # ks) indices 0 = layer grouped ks indices 0"
      by (simp add: layer_def)
    with ih False show ?thesis by auto
  next
    case True
    then have l: "layer grouped (j # ks) indices 0 = grouped j ! indices j # layer grouped ks indices 0"
      by (simp add: layer_def)
    from True labj have "in_group j (grouped j ! indices j)" by simp
    then have g: "in_group k (grouped j ! indices j) = (j = k)"
      by (auto simp: in_group_def)
    show ?thesis
      unfolding l using ih g j True by auto
  qed
qed

lemma round_robin_filter:
  "distinct keys \<Longrightarrow> \<forall>j\<in>set keys. \<forall>x\<in>set (grouped j). in_group j x
   \<Longrightarrow> filter (in_group k) (round_robin grouped keys indices ordered)
       = filter (in_group k) ordered @ (if k \<in> set keys then drop (indices k) (grouped k) else [])"
proof (induction grouped keys indices ordered rule: round_robin.induct)
  case (1 grouped keys indices ordered)
  obtain indices' ordered' progressed where
    p: "round_robin_pass grouped keys indices ordered False = (indices', ordered', progressed)"
    by (cases "round_robin_pass grouped keys indices ordered False") auto
  from round_robin_pass_result [OF p "1.prems"(1)] have
    idx: "\<forall>k. indices' k
            = (if k \<in> set keys \<and> indices k < length (grouped k) then indices k + 1 else indices k)"
    and ord: "ordered' = ordered @ layer grouped keys indices 0"
    and prog: "progressed = (layer grouped keys indices 0 \<noteq> [])"
    by simp_all
  have f: "filter (in_group k) ordered'
           = filter (in_group k) ordered
             @ (if k \<in> set keys \<and> indices k < length (grouped k) then [grouped k ! indices k] else [])"
    unfolding ord using layer_filter [OF "1.prems", of k indices] by simp
  show ?case
  proof (cases progressed)
    case False
    with prog have "layer grouped keys indices 0 = []" by simp
    then have ex: "\<forall>j\<in>set keys. \<not> indices j < length (grouped j)"
      by (simp add: layer_def filter_empty_conv)
    have "round_robin grouped keys indices ordered = ordered'"
      using False p by (subst round_robin.simps) simp
    with f ex show ?thesis by auto
  next
    case True
    then have nn: "\<not> \<not> progressed" by simp
    have "round_robin grouped keys indices ordered = round_robin grouped keys indices' ordered'"
      using True p by (subst round_robin.simps) simp
    also have "filter (in_group k) \<dots>
               = filter (in_group k) ordered'
                 @ (if k \<in> set keys then drop (indices' k) (grouped k) else [])"
      by (rule "1.IH" [OF p [symmetric] refl nn "1.prems"])
    also have "\<dots> = filter (in_group k) ordered
                    @ (if k \<in> set keys then drop (indices k) (grouped k) else [])"
    proof (cases "k \<in> set keys \<and> indices k < length (grouped k)")
      case True
      with idx have "indices' k = Suc (indices k)" by simp
      with True f show ?thesis by (simp add: Cons_nth_drop_Suc)
    next
      case False
      with idx have "indices' k = indices k" by simp
      with False f show ?thesis by auto
    qed
    finally show ?thesis .
  qed
qed

lemma reorder_group_order:
  "filter (in_group k) (reorder_files_for_scan files) = group_members files k"
proof -
  have lab: "\<forall>j\<in>set (group_keys files). \<forall>x\<in>set (group_members files j). in_group j x"
    by (simp add: group_members_def)
  have "filter (in_group k) (reorder_files_for_scan files)
        = (if k \<in> set (group_keys files) then group_members files k else [])"
    unfolding reorder_unfold scheduler_keys round_robin_filter [OF group_keys_props(2) lab]
    by simp
  moreover have "group_members files k = []" if "k \<notin> set (group_keys files)"
  proof -
    from that have "\<forall>x\<in>set files. \<not> in_group k x"
      by (auto simp: group_keys_props(3) in_group_def)
    then have "filter (in_group k) files = []" by (simp only: filter_empty_conv)
    then show ?thesis by (simp add: group_members_def)
  qed
  ultimately show ?thesis by auto
qed

text \<open>
  Claim C6. For every candidate list, \<^verbatim>\<open>reorder_files_for_scan\<close> returns the fair schedule:
  round after round, the file of that rank of every top-level group that still has one, the
  groups in sorted key order. So its first entries are one file from every group, before
  any group's second file. The group keys are sorted, distinct, and exactly the top-level
  segments of the candidates. The files of a group appear in the output in the order of the
  sort key (extension priority, then name-token priority, then path), and they are exactly
  the candidates of that group.
\<close>

theorem scheduler_fairness:
  "reorder_files_for_scan files = fair_schedule files
   \<and> take (length (group_keys files)) (reorder_files_for_scan files)
       = map (\<lambda>k. group_members files k ! 0) (group_keys files)
   \<and> sorted (group_keys files) \<and> distinct (group_keys files)
   \<and> set (group_keys files) = (\<lambda>item. group_key (fst item)) ` set files
   \<and> filter (in_group k) (reorder_files_for_scan files) = group_members files k
   \<and> sorted (map scan_key (filter (in_group k) (reorder_files_for_scan files)))
   \<and> mset (group_members files k) = filter_mset (in_group k) (mset files)
   \<and> scan_key item = (fst (ext_priority (fst item)), name_priority (fst item), fst item)"
proof -
  have a: "reorder_files_for_scan files = fair_schedule files"
    by (rule reorder_is_fair_schedule)
  have b: "take (length (group_keys files)) (reorder_files_for_scan files)
       = map (\<lambda>k. group_members files k ! 0) (group_keys files)"
    unfolding a by (rule first_round)
  have c: "filter (in_group k) (reorder_files_for_scan files) = group_members files k"
    by (rule reorder_group_order)
  have d: "sorted (map scan_key (filter (in_group k) (reorder_files_for_scan files)))"
    unfolding c by (simp add: group_members_def)
  have e: "mset (group_members files k) = filter_mset (in_group k) (mset files)"
    by (simp add: group_members_def)
  have f: "scan_key item = (fst (ext_priority (fst item)), name_priority (fst item), fst item)"
    by (simp add: scan_key_def)
  from a b c d e f group_keys_props [of files] show ?thesis by blast
qed

theorem scheduler_fairness_witness:
  "reorder_files_for_scan sample_files
     = [(''README.md'', 3), (''lib/u.ts'', 5), (''src/b.swift'', 2),
        (''lib/v.ts'', 6), (''src/x/session.py'', 4),
        (''lib/a.json'', 8), (''src/a.py'', 1),
        (''lib/w.json'', 7)]
   \<and> group_keys sample_files = [''README.md'', ''lib'', ''src'']
   \<and> take 3 (reorder_files_for_scan sample_files)
       = map (\<lambda>k. group_members sample_files k ! 0) [''README.md'', ''lib'', ''src'']
   \<and> filter (in_group ''src'') (reorder_files_for_scan sample_files)
       = [(''src/b.swift'', 2), (''src/x/session.py'', 4), (''src/a.py'', 1)]"
proof -
  have s: "fair_schedule sample_files
     = [(''README.md'', 3), (''lib/u.ts'', 5), (''src/b.swift'', 2),
        (''lib/v.ts'', 6), (''src/x/session.py'', 4),
        (''lib/a.json'', 8), (''src/a.py'', 1),
        (''lib/w.json'', 7)]"
    by code_simp
  have k: "group_keys sample_files = [''README.md'', ''lib'', ''src'']"
    by code_simp
  have g: "group_members sample_files ''src''
           = [(''src/b.swift'', 2), (''src/x/session.py'', 4), (''src/a.py'', 1)]"
    by code_simp
  note t = scheduler_fairness [of sample_files "''src''" "(''src/a.py'', 1 :: nat)"]
  from t have a: "reorder_files_for_scan sample_files = fair_schedule sample_files"
    by (rule conjunct1)
  from t have b: "take (length (group_keys sample_files)) (reorder_files_for_scan sample_files)
       = map (\<lambda>k. group_members sample_files k ! 0) (group_keys sample_files)"
    by blast
  from t have c: "filter (in_group ''src'') (reorder_files_for_scan sample_files)
       = group_members sample_files ''src''"
    by blast
  have l: "length [''README.md'', ''lib'', ''src''] = 3" by simp
  from a s have r: "reorder_files_for_scan sample_files
     = [(''README.md'', 3), (''lib/u.ts'', 5), (''src/b.swift'', 2),
        (''lib/v.ts'', 6), (''src/x/session.py'', 4),
        (''lib/a.json'', 8), (''src/a.py'', 1),
        (''lib/w.json'', 7)]"
    by (rule trans)
  show ?thesis
    apply (intro conjI)
       apply (rule r)
      apply (rule k)
     apply (rule b [unfolded k l])
    apply (rule c [unfolded g])
    done
qed

subsection \<open>Scan scheduler: a permutation\<close>

text \<open>
  Claim C9. For every candidate list, the output of \<^verbatim>\<open>reorder_files_for_scan\<close> is a
  permutation of its input: the same multiset, hence the same length, and every candidate
  occurs in the output as often as in the input.
\<close>

theorem reorder_is_permutation:
  "mset (reorder_files_for_scan files) = mset files
   \<and> length (reorder_files_for_scan files) = length files
   \<and> (\<forall>item. count_list (reorder_files_for_scan files) item = count_list files item)"
proof -
  have m: "mset (reorder_files_for_scan files) = mset files" by (rule reorder_mset)
  then have "length (reorder_files_for_scan files) = length files"
    by (rule mset_eq_length)
  moreover have "count_list (reorder_files_for_scan files) item = count_list files item" for item
    using m by (simp flip: count_mset)
  ultimately show ?thesis using m by blast
qed

theorem reorder_is_permutation_witness:
  "mset (reorder_files_for_scan sample_files) = mset sample_files
   \<and> length (reorder_files_for_scan sample_files) = 8
   \<and> count_list (reorder_files_for_scan sample_files) (''lib/v.ts'', 6) = 1"
proof -
  have l: "length sample_files = 8" by (simp add: sample_files_def)
  have c: "count_list sample_files (''lib/v.ts'', 6) = 1" by code_simp
  from reorder_is_permutation [of sample_files] l c show ?thesis by simp
qed

end
